theory Spec2Isabelle
  imports Main "HOL-Library.Word" "HOL-Library.Monad_Syntax"
begin

section \<open>Conway's Game of Life on a torus: the CUDA kernel of kernel.cu\<close>

text \<open>
  The development embeds \<^verbatim>\<open>GameofLife/GameofLife/kernel.cu\<close>: the kernel
  \<^verbatim>\<open>updateGrid\<close>, the host function \<^verbatim>\<open>initializeGrid\<close> and
  the update part of the loop of \<^verbatim>\<open>main\<close>.

  Conventions of the embedding.
  \<^item> A cell is an \<^verbatim>\<open>unsigned char\<close>, an 8-bit word; a buffer is a list of them.
  \<^item> Device memory is a store from pointers to buffers, because the kernel receives two
    pointers and what it does depends on whether they alias.
  \<^item> A C \<^verbatim>\<open>int\<close> is a HOL \<open>int\<close>. For a cell of the grid every intermediate
    value of the kernel lies between 0 and \<open>2 * width\<close>, \<open>2 * height\<close>,
    \<open>width * height\<close> or \<open>8 * 255\<close>, far inside 32 bits for the grid of the program
    (100 by 80), so no wrap-around is written out; signed overflow would be undefined
    in C and has no value to model. The block and thread indices are unsigned: their
    arithmetic wraps around modulo \<open>2 ^ 32\<close>. The operator \<^verbatim>\<open>%\<close> truncates towards zero and is
    undefined for a zero divisor.
  \<^item> Undefined behaviour (an index outside its buffer, a zero divisor) is the value
    \<open>None\<close>.
\<close>

subsection \<open>Memory and C arithmetic\<close>

type_synonym u8 = "8 word"
type_synonym ptr = nat
type_synonym memory = "ptr \<Rightarrow> u8 list"

definition c_rem :: "int \<Rightarrow> int \<Rightarrow> int option" where
  "c_rem a b = (if b = 0 then None else Some (sgn a * (\<bar>a\<bar> mod \<bar>b\<bar>)))"

definition c_div :: "int \<Rightarrow> int \<Rightarrow> int option" where
  "c_div a b = (if b = 0 then None else Some (sgn a * sgn b * (\<bar>a\<bar> div \<bar>b\<bar>)))"

definition load :: "u8 list \<Rightarrow> int \<Rightarrow> u8 option" where
  "load buf i = (if 0 \<le> i \<and> i < int (length buf) then Some (buf ! nat i) else None)"

definition store :: "memory \<Rightarrow> ptr \<Rightarrow> int \<Rightarrow> u8 \<Rightarrow> memory option" where
  "store mem p i v =
     (if 0 \<le> i \<and> i < int (length (mem p)) then Some (mem(p := (mem p)[nat i := v]))
      else None)"

subsection \<open>The kernel \<^verbatim>\<open>updateGrid\<close>\<close>

text \<open>
  The inner loop \<^verbatim>\<open>for (int dx = -1; dx <= 1; dx++)\<close> of lines 29 to 34, with its
  \<^verbatim>\<open>continue\<close> at the cell itself. The running \<^verbatim>\<open>count\<close> is threaded
  through; the byte read is promoted to \<^verbatim>\<open>int\<close> (\<open>uint\<close>).
\<close>

function count_dx :: "u8 list \<Rightarrow> int \<Rightarrow> int \<Rightarrow> int \<Rightarrow> int \<Rightarrow> int \<Rightarrow> int \<Rightarrow> int \<Rightarrow> int option" where
  "count_dx d_grid width height x y dy dx count =
     (if dx \<le> 1 then
        if dx = 0 \<and> dy = 0 then count_dx d_grid width height x y dy (dx + 1) count
        else do {
          nx \<leftarrow> c_rem (x + dx + width) width;
          ny \<leftarrow> c_rem (y + dy + height) height;
          c \<leftarrow> load d_grid (ny * width + nx);
          count_dx d_grid width height x y dy (dx + 1) (count + uint c)
        }
      else Some count)"
  by pat_completeness auto
termination
  by (relation "measure (\<lambda>(d_grid, width, height, x, y, dy, dx, count). nat (2 - dx))") auto

text \<open>The outer loop \<^verbatim>\<open>for (int dy = -1; dy <= 1; dy++)\<close> of lines 28 to 35.\<close>

function count_dy :: "u8 list \<Rightarrow> int \<Rightarrow> int \<Rightarrow> int \<Rightarrow> int \<Rightarrow> int \<Rightarrow> int \<Rightarrow> int option" where
  "count_dy d_grid width height x y dy count =
     (if dy \<le> 1 then do {
        count' \<leftarrow> count_dx d_grid width height x y dy (- 1) count;
        count_dy d_grid width height x y (dy + 1) count'
      }
      else Some count)"
  by pat_completeness auto
termination
  by (relation "measure (\<lambda>(d_grid, width, height, x, y, dy, count). nat (2 - dy))") auto

text \<open>Lines 25 to 35: \<^verbatim>\<open>count\<close> starts at 0 and both loops start at -1.\<close>

definition neighbor_count :: "u8 list \<Rightarrow> int \<Rightarrow> int \<Rightarrow> int \<Rightarrow> int \<Rightarrow> int option" where
  "neighbor_count d_grid width height x y = count_dy d_grid width height x y (- 1) 0"

text \<open>
  The body of the kernel for the thread whose coordinates are \<open>x\<close> and \<open>y\<close> (lines 23
  to 41). In line 38 the operators \<^verbatim>\<open>||\<close> and \<^verbatim>\<open>&&\<close> short-circuit: the cell
  itself is read only when the count is 2.
\<close>

definition updateGrid_at :: "memory \<Rightarrow> ptr \<Rightarrow> ptr \<Rightarrow> int \<Rightarrow> int \<Rightarrow> int \<Rightarrow> int \<Rightarrow> memory option" where
  "updateGrid_at mem d_grid d_newGrid width height x y =
     (if x < width \<and> y < height then
        let idx = y * width + x in do {
          count \<leftarrow> neighbor_count (mem d_grid) width height x y;
          alive \<leftarrow> (if count = 3 then Some True
                    else if count = 2 then map_option (\<lambda>c. c \<noteq> 0) (load (mem d_grid) idx)
                    else Some False);
          store mem d_newGrid idx (if alive then 1 else 0)
        }
      else Some mem)"

text \<open>
  A thread of a launch: its block index, the block dimension and its index in the block
  (the z components are 1 and unused).
\<close>

record thread =
  blockIdx_x :: nat
  blockIdx_y :: nat
  blockDim_x :: nat
  blockDim_y :: nat
  threadIdx_x :: nat
  threadIdx_y :: nat

text \<open>
  Lines 20 and 21 compute each coordinate in \<^verbatim>\<open>unsigned int\<close>, where the product and
  the sum wrap around modulo \<open>2 ^ 32\<close>, and store it in an \<^verbatim>\<open>int\<close>: a value of
  \<open>2 ^ 31\<close> or more becomes negative.
\<close>

definition to_int :: "nat \<Rightarrow> int" where
  "to_int n = sint (word_of_nat n :: 32 word)"

definition thread_xy :: "thread \<Rightarrow> int \<times> int" where
  "thread_xy t =
     (to_int (blockIdx_x t * blockDim_x t + threadIdx_x t),
      to_int (blockIdx_y t * blockDim_y t + threadIdx_y t))"

definition updateGrid :: "thread \<Rightarrow> memory \<Rightarrow> ptr \<Rightarrow> ptr \<Rightarrow> int \<Rightarrow> int \<Rightarrow> memory option" where
  "updateGrid t mem d_grid d_newGrid width height =
     (let (x, y) = thread_xy t in updateGrid_at mem d_grid d_newGrid width height x y)"


subsection \<open>Launching the kernel\<close>

text \<open>
  A launch \<^verbatim>\<open>updateGrid<<<gridSize, blockSize>>>\<close> runs the kernel once for every
  thread of every block. The threads are run here one after the other, block by block;
  the order is one schedule among many, and what is proved about a launch is proved for
  every list of threads. A \<open>dim3\<close> is kept as its x and y components.
\<close>

type_synonym dim3 = "nat \<times> nat"

definition block_threads :: "dim3 \<Rightarrow> nat \<times> nat \<Rightarrow> thread list" where
  "block_threads blockDim b =
     [\<lparr>blockIdx_x = fst b, blockIdx_y = snd b,
       blockDim_x = fst blockDim, blockDim_y = snd blockDim,
       threadIdx_x = tx, threadIdx_y = ty\<rparr>.
      ty \<leftarrow> [0..<snd blockDim], tx \<leftarrow> [0..<fst blockDim]]"

definition launch_blocks :: "dim3 \<Rightarrow> dim3 \<Rightarrow> thread list list" where
  "launch_blocks gridDim blockDim =
     [block_threads blockDim (bx, by). by \<leftarrow> [0..<snd gridDim], bx \<leftarrow> [0..<fst gridDim]]"

fun run_threads :: "thread list \<Rightarrow> memory \<Rightarrow> ptr \<Rightarrow> ptr \<Rightarrow> int \<Rightarrow> int \<Rightarrow> memory option" where
  "run_threads [] mem d_grid d_newGrid width height = Some mem"
| "run_threads (t # ts) mem d_grid d_newGrid width height = do {
     mem' \<leftarrow> updateGrid t mem d_grid d_newGrid width height;
     run_threads ts mem' d_grid d_newGrid width height
   }"

text \<open>A tile is the list of threads of one parallel unit; the tiles run one after the other.\<close>

definition run_tiles :: "thread list list \<Rightarrow> memory \<Rightarrow> ptr \<Rightarrow> ptr \<Rightarrow> int \<Rightarrow> int \<Rightarrow> memory option" where
  "run_tiles tiles mem d_grid d_newGrid width height =
     run_threads (concat tiles) mem d_grid d_newGrid width height"

definition updateGrid_launch ::
    "dim3 \<Rightarrow> dim3 \<Rightarrow> memory \<Rightarrow> ptr \<Rightarrow> ptr \<Rightarrow> int \<Rightarrow> int \<Rightarrow> memory option" where
  "updateGrid_launch gridDim blockDim mem d_grid d_newGrid width height =
     run_tiles (launch_blocks gridDim blockDim) mem d_grid d_newGrid width height"

subsection \<open>The host: \<^verbatim>\<open>initializeGrid\<close> and the loop of \<^verbatim>\<open>main\<close>\<close>

text \<open>
  \<^verbatim>\<open>initializeGrid\<close>, lines 45 to 55. The random draws \<^verbatim>\<open>dis(gen)\<close> are an input
  of the model: \<open>dis k\<close> is the value of the k-th call. The assignment converts the
  \<^verbatim>\<open>int\<close> drawn to \<^verbatim>\<open>unsigned char\<close>.
\<close>

function initializeGrid_loop :: "(nat \<Rightarrow> int) \<Rightarrow> u8 list \<Rightarrow> int \<Rightarrow> int \<Rightarrow> int \<Rightarrow> u8 list option" where
  "initializeGrid_loop dis grid width height i =
     (if i < width * height then
        if 0 \<le> i \<and> i < int (length grid)
        then initializeGrid_loop dis (grid[nat i := word_of_int (dis (nat i))]) width height (i + 1)
        else None
      else Some grid)"
  by pat_completeness auto
termination
  by (relation "measure (\<lambda>(dis, grid, width, height, i). nat (width * height - i))") auto

definition initializeGrid :: "(nat \<Rightarrow> int) \<Rightarrow> u8 list \<Rightarrow> int \<Rightarrow> int \<Rightarrow> u8 list option" where
  "initializeGrid dis grid width height = initializeGrid_loop dis grid width height 0"

text \<open>
  The constants of lines 9 to 16 that the update uses. They are parameters of the model
  of \<^verbatim>\<open>main\<close>, so that properties can be stated for every grid size; \<open>kernel_cu\<close> is
  the configuration of the file.
\<close>

record config =
  GRID_WIDTH :: int
  GRID_HEIGHT :: int
  BLOCK_SIZE :: int
  UPDATE_FREQUENCY :: int

definition kernel_cu :: config where
  "kernel_cu = \<lparr>GRID_WIDTH = 100, GRID_HEIGHT = 80, BLOCK_SIZE = 2, UPDATE_FREQUENCY = 6\<rparr>"

text \<open>Lines 91 and 92.\<close>

definition blockSize :: "config \<Rightarrow> dim3" where
  "blockSize cfg = (nat (BLOCK_SIZE cfg), nat (BLOCK_SIZE cfg))"

definition gridSize :: "config \<Rightarrow> dim3 option" where
  "gridSize cfg = do {
     gx \<leftarrow> c_div (GRID_WIDTH cfg + BLOCK_SIZE cfg - 1) (BLOCK_SIZE cfg);
     gy \<leftarrow> c_div (GRID_HEIGHT cfg + BLOCK_SIZE cfg - 1) (BLOCK_SIZE cfg);
     Some (nat gx, nat gy)
   }"

text \<open>
  An allocation (\<^verbatim>\<open>new[]\<close>, \<^verbatim>\<open>cudaMalloc\<close>) gives a buffer of the size asked for
  whose contents are not initialised: \<open>junk\<close> is whatever the memory held.
  \<^verbatim>\<open>cudaMemcpy\<close> copies the first \<open>n\<close> bytes.
\<close>

definition alloc :: "(nat \<Rightarrow> u8) \<Rightarrow> int \<Rightarrow> u8 list" where
  "alloc junk n = map junk [0..<nat n]"

definition memcpy :: "u8 list \<Rightarrow> u8 list \<Rightarrow> int \<Rightarrow> u8 list option" where
  "memcpy dst src n =
     (if 0 \<le> n \<and> n \<le> int (length src) \<and> n \<le> int (length dst)
      then Some (take (nat n) src @ drop (nat n) dst) else None)"

text \<open>
  The variables of \<^verbatim>\<open>main\<close> that the loop uses. The field \<open>swaps\<close> is a ghost: it
  counts the pointer swaps of lines 112 to 114 and is no variable of the program.
\<close>

record state =
  device :: memory
  d_grid :: ptr
  d_newGrid :: ptr
  h_grid :: "u8 list"
  frameCount :: int
  quit :: bool
  swaps :: nat

text \<open>Lines 79 to 96: the three allocations, the initial pattern and its copy to the device.\<close>

definition main_init ::
    "config \<Rightarrow> (nat \<Rightarrow> int) \<Rightarrow> (nat \<Rightarrow> u8) \<Rightarrow> (nat \<Rightarrow> u8) \<Rightarrow> (nat \<Rightarrow> u8) \<Rightarrow> state option" where
  "main_init cfg dis junk_h junk_d junk_n = do {
     let n = GRID_WIDTH cfg * GRID_HEIGHT cfg;
     h \<leftarrow> initializeGrid dis (alloc junk_h n) (GRID_WIDTH cfg) (GRID_HEIGHT cfg);
     d \<leftarrow> memcpy (alloc junk_d n) h n;
     Some \<lparr>device = (\<lambda>_. [])(0 := d, 1 := alloc junk_n n), d_grid = 0, d_newGrid = 1,
           h_grid = h, frameCount = 0, quit = False, swaps = 0\<rparr>
   }"

text \<open>Lines 109 to 116: the launch, the swap of the two pointers and the copy to the host.\<close>

definition update_step :: "config \<Rightarrow> state \<Rightarrow> state option" where
  "update_step cfg s = do {
     g \<leftarrow> gridSize cfg;
     mem' \<leftarrow> updateGrid_launch g (blockSize cfg) (device s) (d_grid s) (d_newGrid s)
               (GRID_WIDTH cfg) (GRID_HEIGHT cfg);
     let temp = d_grid s;
     let s' = s\<lparr>device := mem', d_grid := d_newGrid s, d_newGrid := temp,
                 swaps := swaps s + 1\<rparr>;
     h \<leftarrow> memcpy (h_grid s') (device s' (d_grid s')) (GRID_WIDTH cfg * GRID_HEIGHT cfg);
     Some (s'\<lparr>h_grid := h\<rparr>)
   }"

text \<open>
  One iteration of \<^verbatim>\<open>while (!quit)\<close>, lines 100 to 138. The events that
  \<^verbatim>\<open>SDL_PollEvent\<close> returns in this iteration are an input. Rendering (lines 119 to
  137) changes none of the variables and is left out.
\<close>

datatype event = SDL_QUIT | SDL_OTHER

definition frame :: "config \<Rightarrow> event list \<Rightarrow> state \<Rightarrow> state option" where
  "frame cfg events s = do {
     let s1 = s\<lparr>quit := quit s \<or> SDL_QUIT \<in> set events\<rparr>;
     r \<leftarrow> c_rem (frameCount s1) (UPDATE_FREQUENCY cfg);
     s2 \<leftarrow> (if r = 0 then update_step cfg s1 else Some s1);
     Some (s2\<lparr>frameCount := frameCount s2 + 1\<rparr>)
   }"

text \<open>
  The loop, run on the events of the frames to come: it stops when \<open>quit\<close> is set, or
  when the list of inputs ends.
\<close>

fun main_loop :: "config \<Rightarrow> event list list \<Rightarrow> state \<Rightarrow> state option" where
  "main_loop cfg [] s = Some s"
| "main_loop cfg (events # rest) s =
     (if quit s then Some s else do { s' \<leftarrow> frame cfg events s; main_loop cfg rest s' })"

text \<open>A number of generations: the update of lines 109 to 116, repeated.\<close>

fun generations :: "config \<Rightarrow> nat \<Rightarrow> state \<Rightarrow> state option" where
  "generations cfg 0 s = Some s"
| "generations cfg (Suc n) s = do { s' \<leftarrow> update_step cfg s; generations cfg n s' }"

subsection \<open>Reference notions\<close>

text \<open>
  The notions of the specification that the kernel is compared with. A coordinate is
  wrapped on its axis as the specification writes it; \<^verbatim>\<open>%\<close> and \<open>mod\<close> agree
  here because the argument is never negative for a cell of the grid.
\<close>

definition wrap :: "int \<Rightarrow> int \<Rightarrow> int \<Rightarrow> int" where
  "wrap v d n = (v + d + n) mod n"

text \<open>The cell at column \<open>x\<close> of row \<open>y\<close>, stored at the row-major index \<open>y * w + x\<close>.\<close>

definition cell_at :: "u8 list \<Rightarrow> int \<Rightarrow> int \<Rightarrow> int \<Rightarrow> u8" where
  "cell_at g w x y = g ! nat (y * w + x)"

text \<open>The eight offsets \<open>(dx, dy)\<close>, in the order in which the two loops visit them.\<close>

definition offsets :: "(int \<times> int) list" where
  "offsets = [(-1, -1), (0, -1), (1, -1), (-1, 0), (1, 0), (-1, 1), (0, 1), (1, 1)]"

text \<open>
  From the specification (4.1): the number of live cells among the eight wrapped
  positions. A cell is live when its byte is not zero, which is how line 38 and the
  renderer (line 127) test it.
\<close>

definition live_neighbours :: "u8 list \<Rightarrow> int \<Rightarrow> int \<Rightarrow> int \<Rightarrow> int \<Rightarrow> nat" where
  "live_neighbours g w h x y =
     length (filter (\<lambda>(dx, dy). cell_at g w (wrap x dx w) (wrap y dy h) \<noteq> 0) offsets)"

text \<open>What the loops add up: the bytes themselves, whatever their values.\<close>

definition byte_sum :: "u8 list \<Rightarrow> int \<Rightarrow> int \<Rightarrow> int \<Rightarrow> int \<Rightarrow> int" where
  "byte_sum g w h x y =
     (\<Sum>(dx, dy) \<leftarrow> offsets. uint (cell_at g w (wrap x dx w) (wrap y dy h)))"

text \<open>The same sum without the offset \<open>d\<close>: the bytes at the seven other offsets.\<close>

definition others :: "u8 list \<Rightarrow> int \<Rightarrow> int \<Rightarrow> int \<Rightarrow> int \<Rightarrow> int \<times> int \<Rightarrow> int" where
  "others g w h x y d =
     (\<Sum>(dx, dy) \<leftarrow> remove1 d offsets. uint (cell_at g w (wrap x dx w) (wrap y dy h)))"

text \<open>The byte that line 38 stores for a cell, and the buffer of all of them.\<close>

definition next_cell :: "u8 list \<Rightarrow> int \<Rightarrow> int \<Rightarrow> int \<Rightarrow> int \<Rightarrow> u8" where
  "next_cell g w h x y =
     (let count = byte_sum g w h x y
      in if count = 3 \<or> (count = 2 \<and> cell_at g w x y \<noteq> 0) then 1 else 0)"

definition next_grid :: "u8 list \<Rightarrow> int \<Rightarrow> int \<Rightarrow> u8 list" where
  "next_grid g w h = map (\<lambda>i. next_cell g w h (int i mod w) (int i div w)) [0..<nat (w * h)]"

text \<open>The effect of one thread on the next buffer, and of a list of threads on it.\<close>

definition thread_step :: "u8 list \<Rightarrow> int \<Rightarrow> int \<Rightarrow> u8 list \<Rightarrow> thread \<Rightarrow> u8 list" where
  "thread_step g w h buf t =
     (let (x, y) = thread_xy t
      in if x < w \<and> y < h then buf[nat (y * w + x) := next_cell g w h x y] else buf)"

text \<open>
  A list of threads covers the grid when every cell is the coordinate of one of them. A
  tiling is valid when its tiles are ranges of coordinates that are not negative and
  every cell of the grid is the coordinate of exactly one thread of exactly one tile;
  threads beyond the last column or row, as those of the last blocks of a launch may
  be, are stopped by the guard of line 23 and do not matter.
\<close>

definition covers :: "int \<Rightarrow> int \<Rightarrow> thread list \<Rightarrow> bool" where
  "covers w h ts \<longleftrightarrow> (\<forall>x y. 0 \<le> x \<and> x < w \<and> 0 \<le> y \<and> y < h \<longrightarrow> (x, y) \<in> thread_xy ` set ts)"

definition grid_cells :: "int \<Rightarrow> int \<Rightarrow> (int \<times> int) list" where
  "grid_cells w h = [(x, y). y \<leftarrow> [0..h - 1], x \<leftarrow> [0..w - 1]]"

definition coords_ok :: "thread \<Rightarrow> bool" where
  "coords_ok t \<longleftrightarrow> 0 \<le> fst (thread_xy t) \<and> 0 \<le> snd (thread_xy t)"

definition valid_tiling :: "int \<Rightarrow> int \<Rightarrow> thread list list \<Rightarrow> bool" where
  "valid_tiling w h tiles \<longleftrightarrow>
     list_all coords_ok (concat tiles) \<and>
     list_all (\<lambda>c. length (filter (\<lambda>t. thread_xy t = c) (concat tiles)) = 1) (grid_cells w h)"

text \<open>
  The threads of a launch, listed by their indices: the list of all
  \<open>(blockIdx.y, blockIdx.x, threadIdx.y, threadIdx.x)\<close> and the thread of each.
\<close>

definition launch_index :: "dim3 \<Rightarrow> dim3 \<Rightarrow> (nat \<times> nat \<times> nat \<times> nat) list" where
  "launch_index gridDim blockDim =
     List.product [0..<snd gridDim] (List.product [0..<fst gridDim]
       (List.product [0..<snd blockDim] [0..<fst blockDim]))"

definition index_thread :: "dim3 \<Rightarrow> nat \<times> nat \<times> nat \<times> nat \<Rightarrow> thread" where
  "index_thread blockDim i =
     (case i of (by, bx, ty, tx) \<Rightarrow>
        \<lparr>blockIdx_x = bx, blockIdx_y = by, blockDim_x = fst blockDim, blockDim_y = snd blockDim,
         threadIdx_x = tx, threadIdx_y = ty\<rparr>)"

text \<open>The cells of a buffer are all 0 or 1.\<close>

definition cells01 :: "u8 list \<Rightarrow> bool" where
  "cells01 g \<longleftrightarrow> list_all (\<lambda>c. c = 0 \<or> c = 1) g"

text \<open>
  The configurations and states that \<^verbatim>\<open>main\<close> works with: positive sizes for
  which the sums of line 92 are values of type \<^verbatim>\<open>int\<close>, two distinct device buffers
  and a host buffer, each of \<open>GRID_WIDTH * GRID_HEIGHT\<close> cells.
\<close>

definition config_ok :: "config \<Rightarrow> bool" where
  "config_ok cfg \<longleftrightarrow> 0 < GRID_WIDTH cfg \<and> 0 < GRID_HEIGHT cfg \<and> 0 < BLOCK_SIZE cfg \<and>
     GRID_WIDTH cfg + BLOCK_SIZE cfg - 1 < 2 ^ 31 \<and> GRID_HEIGHT cfg + BLOCK_SIZE cfg - 1 < 2 ^ 31"

definition state_ok :: "config \<Rightarrow> state \<Rightarrow> bool" where
  "state_ok cfg s \<longleftrightarrow>
     d_grid s \<noteq> d_newGrid s \<and>
     length (device s (d_grid s)) = nat (GRID_WIDTH cfg * GRID_HEIGHT cfg) \<and>
     length (device s (d_newGrid s)) = nat (GRID_WIDTH cfg * GRID_HEIGHT cfg) \<and>
     length (h_grid s) = nat (GRID_WIDTH cfg * GRID_HEIGHT cfg)"

text \<open>A grid of 4 columns and 3 rows, and a memory that holds it, for the examples.\<close>

definition demo_grid :: "u8 list" where
  "demo_grid = [0, 1, 0, 0,  0, 0, 1, 0,  1, 1, 1, 0]"

definition demo_mem :: memory where
  "demo_mem = (\<lambda>_. [])(0 := demo_grid, 1 := replicate 12 7)"


text \<open>Every cell of a buffer is dead.\<close>

definition all_dead :: "u8 list \<Rightarrow> bool" where
  "all_dead g \<longleftrightarrow> list_all (\<lambda>c. c = 0) g"

text \<open>The buffer that \<^verbatim>\<open>initializeGrid\<close> leaves: the draws, converted, in order.\<close>

definition drawn :: "(nat \<Rightarrow> int) \<Rightarrow> int \<Rightarrow> u8 list" where
  "drawn dis n = map (\<lambda>k. word_of_int (dis k)) [0..<nat n]"

text \<open>
  A small configuration with a state whose current buffer is all dead, and the state in
  which the loop of \<^verbatim>\<open>main\<close> starts for the configuration of the file, for draws
  that alternate between 0 and 1 and a next buffer that held the byte 2 when allocated.
\<close>

definition demo_cfg :: config where
  "demo_cfg = \<lparr>GRID_WIDTH = 4, GRID_HEIGHT = 3, BLOCK_SIZE = 2, UPDATE_FREQUENCY = 6\<rparr>"

definition dead_state :: state where
  "dead_state = \<lparr>device = (\<lambda>_. [])(0 := replicate 12 0, 1 := replicate 12 7),
     d_grid = 0, d_newGrid = 1, h_grid = replicate 12 0, frameCount = 0, quit = False, swaps = 0\<rparr>"

definition start_state :: state where
  "start_state = the (main_init kernel_cu (\<lambda>k. int (k mod 2)) (\<lambda>_. 0) (\<lambda>_. 0) (\<lambda>_. 2))"

text \<open>
  The glider, as the cells of the plane that are alive, and a pattern placed on the
  torus: the pattern is moved by \<open>(ox, oy)\<close> and each coordinate is taken modulo the
  size of its axis; \<open>place\<close> is the buffer in which exactly these cells are alive.
\<close>

definition glider :: "(int \<times> int) list" where
  "glider = [(1, 0), (2, 1), (0, 2), (1, 2), (2, 2)]"

definition on_torus :: "int \<Rightarrow> int \<Rightarrow> (int \<times> int) list \<Rightarrow> int \<Rightarrow> int \<Rightarrow> (int \<times> int) list" where
  "on_torus w h cells ox oy = map (\<lambda>(cx, cy). ((cx + ox) mod w, (cy + oy) mod h)) cells"

definition place :: "int \<Rightarrow> int \<Rightarrow> (int \<times> int) list \<Rightarrow> int \<Rightarrow> int \<Rightarrow> u8 list" where
  "place w h cells ox oy =
     map (\<lambda>i. if (int i mod w, int i div w) \<in> set (on_torus w h cells ox oy) then 1 else 0)
       [0..<nat (w * h)]"

text \<open>
  The Game of Life on the unbounded plane, for a pattern that lies in the box of the
  cells \<open>(x, y)\<close> with \<open>0 \<le> x < 4\<close> and \<open>0 \<le> y < 4\<close>: the next pattern lies in the
  window one cell larger on each side. On a torus of at least 6 by 6 cells the window
  does not overlap itself, and a generation of the kernel is a generation of the plane.
\<close>

definition plane_count :: "(int \<times> int) list \<Rightarrow> int \<Rightarrow> int \<Rightarrow> int" where
  "plane_count P x y = (\<Sum>(dx, dy) \<leftarrow> offsets. if (x + dx, y + dy) \<in> set P then 1 else 0)"

definition plane_alive_next :: "(int \<times> int) list \<Rightarrow> int \<times> int \<Rightarrow> bool" where
  "plane_alive_next P c =
     (let n = plane_count P (fst c) (snd c) in n = 3 \<or> (n = 2 \<and> c \<in> set P))"

definition plane_step :: "(int \<times> int) list \<Rightarrow> (int \<times> int) list" where
  "plane_step P = filter (plane_alive_next P) [(x, y). y \<leftarrow> [-1..4], x \<leftarrow> [-1..4]]"

definition in_box :: "(int \<times> int) list \<Rightarrow> bool" where
  "in_box P \<longleftrightarrow> list_all (\<lambda>(x, y). 0 \<le> x \<and> x < 4 \<and> 0 \<le> y \<and> y < 4) P"

text \<open>
  The cell of the plane, in the window that starts at -1, that the torus coordinate \<open>X\<close>
  stands for when the pattern was moved by \<open>ofs\<close>.
\<close>

definition rep :: "int \<Rightarrow> int \<Rightarrow> int \<Rightarrow> int" where
  "rep w ofs X = (X - ofs + 1) mod w - 1"

text \<open>A state of the program's grid whose current buffer holds a glider across the corner.\<close>

definition glider_state :: state where
  "glider_state = \<lparr>device = (\<lambda>_. [])(0 := place 100 80 glider 98 79, 1 := replicate 8000 0),
     d_grid = 0, d_newGrid = 1, h_grid = place 100 80 glider 98 79,
     frameCount = 0, quit = False, swaps = 0\<rparr>"

section \<open>Properties\<close>

subsection \<open>The neighbour count\<close>

declare count_dx.simps [simp del] count_dy.simps [simp del]

lemma c_rem_nonneg: "0 \<le> a \<Longrightarrow> 0 < b \<Longrightarrow> c_rem a b = Some (a mod b)"
  by (simp add: c_rem_def sgn_if)

lemma c_div_nonneg: "0 \<le> a \<Longrightarrow> 0 < b \<Longrightarrow> c_div a b = Some (a div b)"
  by (simp add: c_div_def sgn_if)

lemma wrap_range: "0 < n \<Longrightarrow> 0 \<le> wrap v d n \<and> wrap v d n < n"
  by (simp add: wrap_def)

lemma idx_bound:
  fixes nx ny w h :: int
  assumes "0 \<le> nx" "nx < w" "0 \<le> ny" "ny < h"
  shows "0 \<le> ny * w + nx" "ny * w + nx < w * h"
proof -
  from assms have w: "0 < w" by linarith
  show "0 \<le> ny * w + nx" using assms w by simp
  have "ny * w \<le> (h - 1) * w" using assms w by (intro mult_right_mono) auto
  then have "ny * w + nx < (h - 1) * w + w" using assms by linarith
  also have "\<dots> = w * h" by (simp add: algebra_simps)
  finally show "ny * w + nx < w * h" .
qed

lemma c_rem_wrap:
  assumes "0 \<le> x" "x < w"
  shows "c_rem (x - 1 + w) w = Some (wrap x (- 1) w)"
    and "c_rem (x + w) w = Some (wrap x 0 w)"
    and "c_rem (x + 1 + w) w = Some (wrap x 1 w)"
  using assms by (simp_all add: wrap_def c_rem_nonneg)

lemma load_cell:
  assumes "0 \<le> nx" "nx < w" "0 \<le> ny" "ny < h" "length g = nat (w * h)"
  shows "load g (ny * w + nx) = Some (cell_at g w nx ny)"
  using idx_bound[OF assms(1-4)] assms(5) by (simp add: load_def cell_at_def)

lemma load_wrap:
  assumes "0 < w" "0 < h" "length g = nat (w * h)"
  shows "load g (wrap y dy h * w + wrap x dx w) = Some (cell_at g w (wrap x dx w) (wrap y dy h))"
  using wrap_range[OF assms(1), of x dx] wrap_range[OF assms(2), of y dy] assms(3)
  by (intro load_cell) auto

lemma count_dx_row:
  assumes "0 \<le> x" "x < w" "0 \<le> y" "y < h" "length g = nat (w * h)" "dy \<in> {-1, 0, 1}"
  shows "count_dx g w h x y dy (- 1) c =
    Some (c + uint (cell_at g w (wrap x (- 1) w) (wrap y dy h))
            + (if dy = 0 then 0 else uint (cell_at g w (wrap x 0 w) (wrap y dy h)))
            + uint (cell_at g w (wrap x 1 w) (wrap y dy h)))"
proof -
  have w: "0 < w" and h: "0 < h" using assms by auto
  have ry: "c_rem (y + d + h) h = Some (wrap y d h)" if "d \<in> {-1, 0, 1}" for d
    unfolding wrap_def using assms(3,4) that by (intro c_rem_nonneg) auto
  note rd = c_rem_wrap[OF assms(1,2)] c_rem_wrap[OF assms(3,4)] ry load_wrap[OF w h assms(5)]
  have e2: "count_dx g w h x y d 2 c = Some c" for c d
    by (subst count_dx.simps) simp
  have e1: "count_dx g w h x y d 1 c = Some (c + uint (cell_at g w (wrap x 1 w) (wrap y d h)))"
    if "d \<in> {-1, 0, 1}" for c d
    using that by (subst count_dx.simps) (auto simp add: e2 rd)
  have e0: "count_dx g w h x y d 0 c =
      Some (c + (if d = 0 then 0 else uint (cell_at g w (wrap x 0 w) (wrap y d h)))
              + uint (cell_at g w (wrap x 1 w) (wrap y d h)))"
    if "d \<in> {-1, 0, 1}" for c d
    using that by (subst count_dx.simps) (auto simp add: e1 rd)
  show ?thesis
    using assms(6) by (subst count_dx.simps) (auto simp add: e0 rd)
qed

lemma neighbor_count_byte_sum:
  assumes "0 \<le> x" "x < w" "0 \<le> y" "y < h" "length g = nat (w * h)"
  shows "neighbor_count g w h x y = Some (byte_sum g w h x y)"
proof -
  have e2: "\<And>c. count_dy g w h x y 2 c = Some c"
    by (subst count_dy.simps) simp
  have e1: "\<And>c. count_dy g w h x y 1 c =
      Some (c + uint (cell_at g w (wrap x (- 1) w) (wrap y 1 h))
              + uint (cell_at g w (wrap x 0 w) (wrap y 1 h))
              + uint (cell_at g w (wrap x 1 w) (wrap y 1 h)))"
    by (subst count_dy.simps) (simp add: count_dx_row[OF assms] e2)
  have e0: "\<And>c. count_dy g w h x y 0 c =
      Some (c + uint (cell_at g w (wrap x (- 1) w) (wrap y 0 h))
              + uint (cell_at g w (wrap x 1 w) (wrap y 0 h))
              + uint (cell_at g w (wrap x (- 1) w) (wrap y 1 h))
              + uint (cell_at g w (wrap x 0 w) (wrap y 1 h))
              + uint (cell_at g w (wrap x 1 w) (wrap y 1 h)))"
    by (subst count_dy.simps) (simp add: count_dx_row[OF assms] e1)
  show ?thesis
    unfolding neighbor_count_def byte_sum_def offsets_def
    by (subst count_dy.simps) (simp add: count_dx_row[OF assms] e0)
qed

lemma wrapped_cell_in_set:
  assumes "0 < w" "0 < h" "length g = nat (w * h)"
  shows "cell_at g w (wrap x dx w) (wrap y dy h) \<in> set g"
proof -
  have "0 \<le> wrap y dy h * w + wrap x dx w" "wrap y dy h * w + wrap x dx w < w * h"
    using idx_bound[of "wrap x dx w" w "wrap y dy h" h] wrap_range[OF assms(1)] wrap_range[OF assms(2)]
    by auto
  then have "nat (wrap y dy h * w + wrap x dx w) < length g" using assms(3) by simp
  then show ?thesis unfolding cell_at_def by (rule nth_mem)
qed

lemma sum_list_indicator:
  "(\<Sum>x \<leftarrow> xs. if P x then 1 else 0) = int (length (filter P xs))"
  by (induction xs) simp_all

lemma byte_sum_live:
  assumes "0 < w" "0 < h" "length g = nat (w * h)" "cells01 g"
  shows "byte_sum g w h x y = int (live_neighbours g w h x y)"
proof -
  have bit: "uint (cell_at g w (wrap x dx w) (wrap y dy h)) =
      (if cell_at g w (wrap x dx w) (wrap y dy h) \<noteq> 0 then 1 else 0)" for dx dy
    using wrapped_cell_in_set[OF assms(1-3), of x dx y dy] assms(4)
    by (auto simp add: cells01_def list_all_iff)
  have "(\<lambda>(dx, dy). uint (cell_at g w (wrap x dx w) (wrap y dy h))) =
      (\<lambda>d. if (case d of (dx, dy) \<Rightarrow> cell_at g w (wrap x dx w) (wrap y dy h) \<noteq> 0) then 1 else 0)"
    by (rule ext) (simp add: bit split: prod.splits)
  then have "byte_sum g w h x y =
      (\<Sum>d \<leftarrow> offsets. if (case d of (dx, dy) \<Rightarrow> cell_at g w (wrap x dx w) (wrap y dy h) \<noteq> 0) then 1 else 0)"
    unfolding byte_sum_def by simp
  also have "\<dots> = int (live_neighbours g w h x y)"
    unfolding live_neighbours_def by (rule sum_list_indicator)
  finally show ?thesis .
qed

lemma live_neighbours_le: "live_neighbours g w h x y \<le> 8"
proof -
  have "live_neighbours g w h x y \<le> length offsets"
    unfolding live_neighbours_def by (rule length_filter_le)
  then show ?thesis by (simp add: offsets_def)
qed

subsection \<open>One thread\<close>

lemma updateGrid_at_in:
  assumes "0 \<le> x" "x < w" "0 \<le> y" "y < h"
    and "length (mem p) = nat (w * h)" "length (mem q) = nat (w * h)"
  shows "updateGrid_at mem p q w h x y =
    Some (mem(q := (mem q)[nat (y * w + x) := next_cell (mem p) w h x y]))"
proof -
  have ld: "load (mem p) (y * w + x) = Some (cell_at (mem p) w x y)"
    using assms by (intro load_cell) auto
  have st: "\<And>v. store mem q (y * w + x) v = Some (mem(q := (mem q)[nat (y * w + x) := v]))"
    using idx_bound[OF assms(1-4)] assms(6) by (simp add: store_def)
  show ?thesis
    using assms(2,4)
    by (simp add: updateGrid_at_def neighbor_count_byte_sum[OF assms(1-5)] ld st next_cell_def Let_def)
qed

lemma updateGrid_at_out: "\<not> (x < w \<and> y < h) \<Longrightarrow> updateGrid_at mem p q w h x y = Some mem"
  by (auto simp add: updateGrid_at_def)

lemma to_int_small: "n < 2 ^ 31 \<Longrightarrow> to_int n = int n"
  unfolding to_int_def by (simp add: signed_of_nat signed_take_bit_int_eq_self)

lemma thread_xy_nonneg:
  assumes "coords_ok t"
  shows "0 \<le> fst (thread_xy t)" "0 \<le> snd (thread_xy t)"
  using assms by (simp_all add: coords_ok_def)

lemma thread_step_in:
  "thread_xy t = (x, y) \<Longrightarrow> x < w \<Longrightarrow> y < h \<Longrightarrow>
   thread_step g w h buf t = buf[nat (y * w + x) := next_cell g w h x y]"
  by (simp add: thread_step_def)

lemma thread_step_out:
  "thread_xy t = (x, y) \<Longrightarrow> \<not> (x < w \<and> y < h) \<Longrightarrow> thread_step g w h buf t = buf"
  by (auto simp add: thread_step_def)

lemma updateGrid_step:
  assumes "length (mem p) = nat (w * h)" "length (mem q) = nat (w * h)" "coords_ok t"
  shows "updateGrid t mem p q w h = Some (mem(q := thread_step (mem p) w h (mem q) t))"
proof -
  obtain x y where xy: "thread_xy t = (x, y)" by (cases "thread_xy t")
  have nn: "0 \<le> x" "0 \<le> y" using thread_xy_nonneg[OF assms(3)] xy by simp_all
  show ?thesis
  proof (cases "x < w \<and> y < h")
    case True
    then show ?thesis
      using updateGrid_at_in[OF nn(1) _ nn(2) _ assms(1,2)] thread_step_in[OF xy]
      by (simp add: updateGrid_def xy)
  next
    case False
    then show ?thesis
      using updateGrid_at_out[OF False] thread_step_out[OF xy False]
      by (simp add: updateGrid_def xy)
  qed
qed

lemma length_thread_step [simp]: "length (thread_step g w h buf t) = length buf"
  by (simp add: thread_step_def split: prod.splits)

lemma length_foldl_thread_step [simp]: "length (foldl (thread_step g w h) buf ts) = length buf"
  by (induction ts arbitrary: buf) simp_all

lemma store_frame: "store mem q i v = Some mem' \<Longrightarrow> r \<noteq> q \<Longrightarrow> mem' r = mem r"
  by (auto simp add: store_def split: if_splits)

lemma updateGrid_at_frame:
  "updateGrid_at mem p q w h x y = Some mem' \<Longrightarrow> r \<noteq> q \<Longrightarrow> mem' r = mem r"
  by (auto simp add: updateGrid_at_def Let_def bind_eq_Some_conv split: if_splits dest: store_frame)

lemma updateGrid_frame:
  "updateGrid t mem p q w h = Some mem' \<Longrightarrow> r \<noteq> q \<Longrightarrow> mem' r = mem r"
  by (auto simp add: updateGrid_def split: prod.splits dest: updateGrid_at_frame)

subsection \<open>A list of threads, a launch\<close>

lemma run_threads_foldl:
  assumes "p \<noteq> q" "length (mem p) = nat (w * h)" "length (mem q) = nat (w * h)"
    and "\<forall>t \<in> set ts. coords_ok t"
  shows "run_threads ts mem p q w h = Some (mem(q := foldl (thread_step (mem p) w h) (mem q) ts))"
  using assms
proof (induction ts arbitrary: mem)
  case Nil
  then show ?case by simp
next
  case (Cons t ts)
  let ?m = "mem(q := thread_step (mem p) w h (mem q) t)"
  have "run_threads (t # ts) mem p q w h = run_threads ts ?m p q w h"
    using Cons.prems by (simp add: updateGrid_step)
  also have "\<dots> = Some (?m(q := foldl (thread_step (?m p) w h) (?m q) ts))"
    using Cons.prems by (intro Cons.IH) simp_all
  also have "?m(q := foldl (thread_step (?m p) w h) (?m q) ts) =
      mem(q := foldl (thread_step (mem p) w h) (mem q) (t # ts))"
    using Cons.prems(1) by simp
  finally show ?case .
qed

lemma run_threads_frame:
  "run_threads ts mem p q w h = Some mem' \<Longrightarrow> r \<noteq> q \<Longrightarrow> mem' r = mem r"
proof (induction ts arbitrary: mem)
  case Nil
  then show ?case by simp
next
  case (Cons t ts)
  from Cons.prems(1) obtain m1 where m1: "updateGrid t mem p q w h = Some m1"
    and rest: "run_threads ts m1 p q w h = Some mem'"
    by (auto simp add: bind_eq_Some_conv)
  have "mem' r = m1 r" using Cons.IH[OF rest Cons.prems(2)] .
  also have "m1 r = mem r" using updateGrid_frame[OF m1 Cons.prems(2)] .
  finally show ?case .
qed

lemma updateGrid_at_reads:
  assumes "updateGrid_at m1 p q w h x y = Some m1'" "m2 p = m1 p" "m2 q = m1 q"
  shows "\<exists>m2'. updateGrid_at m2 p q w h x y = Some m2' \<and> m2' p = m1' p \<and> m2' q = m1' q"
proof (cases "x < w \<and> y < h")
  case False
  then show ?thesis using assms by (auto simp add: updateGrid_at_def)
next
  case True
  from assms(1) True obtain count alive where
    c: "neighbor_count (m1 p) w h x y = Some count"
    and a: "(if count = 3 then Some True
             else if count = 2 then map_option (\<lambda>c. c \<noteq> 0) (load (m1 p) (y * w + x))
             else Some False) = Some alive"
    and s: "store m1 q (y * w + x) (if alive then 1 else 0) = Some m1'"
    by (auto simp add: updateGrid_at_def Let_def bind_eq_Some_conv)
  from s have inb: "0 \<le> y * w + x \<and> y * w + x < int (length (m1 q))"
    and m1': "m1' = m1(q := (m1 q)[nat (y * w + x) := (if alive then 1 else 0)])"
    by (auto simp add: store_def split: if_splits)
  let ?m2' = "m2(q := (m2 q)[nat (y * w + x) := (if alive then 1 else 0)])"
  have "store m2 q (y * w + x) (if alive then 1 else 0) = Some ?m2'"
    using inb assms(3) by (simp add: store_def)
  then have "updateGrid_at m2 p q w h x y = Some ?m2'"
    unfolding updateGrid_at_def Let_def assms(2)
    by (simp only: True c a if_True simp_thms Option.bind.simps)
  moreover have "?m2' p = m1' p" "?m2' q = m1' q"
    using assms(2,3) by (simp_all add: m1')
  ultimately show ?thesis by blast
qed

lemma run_threads_reads:
  assumes "run_threads ts m1 p q w h = Some m1'" "m2 p = m1 p" "m2 q = m1 q"
  shows "\<exists>m2'. run_threads ts m2 p q w h = Some m2' \<and> m2' p = m1' p \<and> m2' q = m1' q"
  using assms
proof (induction ts arbitrary: m1 m2)
  case Nil
  then show ?case by simp
next
  case (Cons t ts)
  from Cons.prems(1) obtain n1 where n1: "updateGrid t m1 p q w h = Some n1"
    and rest: "run_threads ts n1 p q w h = Some m1'"
    by (auto simp add: bind_eq_Some_conv)
  obtain x y where xy: "thread_xy t = (x, y)" by (cases "thread_xy t")
  from n1 have "updateGrid_at m1 p q w h x y = Some n1" by (simp add: updateGrid_def xy)
  from updateGrid_at_reads[OF this Cons.prems(2,3)]
  obtain n2 where n2: "updateGrid_at m2 p q w h x y = Some n2" "n2 p = n1 p" "n2 q = n1 q"
    by (elim exE conjE)
  from Cons.IH[OF rest n2(2,3)] n2(1) show ?case by (simp add: updateGrid_def xy)
qed


lemma cell_index:
  fixes x y w :: int
  assumes "0 \<le> x" "x < w"
  shows "(y * w + x) mod w = x" "(y * w + x) div w = y"
  using assms by simp_all

lemma index_cell:
  fixes w h :: int
  assumes "0 < w" "i < nat (w * h)"
  shows "0 \<le> int i mod w" "int i mod w < w" "0 \<le> int i div w" "int i div w < h"
    "nat (int i div w * w + int i mod w) = i"
proof -
  show "0 \<le> int i mod w" "int i mod w < w" using assms(1) by simp_all
  show "0 \<le> int i div w" using assms(1) by (simp add: pos_imp_zdiv_nonneg_iff)
  have "int i < h * w" using assms(2) by (simp add: mult.commute)
  moreover have "int i div w * w \<le> int i"
    using div_mult_mod_eq[of "int i" w] assms(1) pos_mod_sign[OF assms(1), of "int i"] by linarith
  moreover have "h * w \<le> int i div w * w" if "h \<le> int i div w"
    using that assms(1) by (intro mult_right_mono) auto
  ultimately show "int i div w < h" by linarith
  show "nat (int i div w * w + int i mod w) = i" by simp
qed

lemma foldl_thread_step_nth:
  assumes "0 < w" "i < nat (w * h)" "length buf = nat (w * h)"
    and "\<forall>t \<in> set ts. coords_ok t"
  shows "foldl (thread_step g w h) buf ts ! i =
    (if (int i mod w, int i div w) \<in> thread_xy ` set ts
     then next_cell g w h (int i mod w) (int i div w) else buf ! i)"
  using assms(4)
proof (induction ts rule: rev_induct)
  case Nil
  then show ?case by simp
next
  case (snoc t ts)
  let ?b = "foldl (thread_step g w h) buf ts"
  obtain x y where xy: "thread_xy t = (x, y)" by (cases "thread_xy t")
  have ok: "coords_ok t" using snoc.prems by simp
  have ih: "foldl (thread_step g w h) buf ts ! i =
    (if (int i mod w, int i div w) \<in> thread_xy ` set ts
     then next_cell g w h (int i mod w) (int i div w) else buf ! i)"
    using snoc.prems by (intro snoc.IH) simp
  have nn: "0 \<le> x" "0 \<le> y" using thread_xy_nonneg[OF ok] xy by simp_all
  show ?case
  proof (cases "x < w \<and> y < h")
    case True
    show ?thesis
    proof (cases "nat (y * w + x) = i")
      case same: True
      have "int i = y * w + x" using same idx_bound(1)[of x w y h] nn True by linarith
      then have "int i mod w = x" "int i div w = y" using cell_index[of x w y] nn True by simp_all
      then show ?thesis using same assms True xy by (simp add: thread_step_in[OF xy] image_iff rev_bexI[of t])
    next
      case diff: False
      have "(int i mod w, int i div w) \<noteq> thread_xy t"
        using diff index_cell(5)[OF assms(1,2)] xy by auto
      then show ?thesis using diff ih True by (simp add: thread_step_in[OF xy])
    qed
  next
    case False
    have "(int i mod w, int i div w) \<noteq> thread_xy t"
      using False index_cell(2,4)[OF assms(1,2)] xy by auto
    then show ?thesis using ih by (simp add: thread_step_out[OF xy False])
  qed
qed

lemma foldl_thread_step_cover:
  assumes "0 < w" "length buf = nat (w * h)" "covers w h ts"
    and "\<forall>t \<in> set ts. coords_ok t"
  shows "foldl (thread_step g w h) buf ts = next_grid g w h"
proof (rule nth_equalityI)
  show "length (foldl (thread_step g w h) buf ts) = length (next_grid g w h)"
    using assms(2) by (simp add: next_grid_def)
next
  fix i assume "i < length (foldl (thread_step g w h) buf ts)"
  then have i: "i < nat (w * h)" using assms(2) by simp
  have "(int i mod w, int i div w) \<in> thread_xy ` set ts"
    using assms(3) index_cell(1-4)[OF assms(1) i] unfolding covers_def by blast
  then show "foldl (thread_step g w h) buf ts ! i = next_grid g w h ! i"
    using foldl_thread_step_nth[OF assms(1) i assms(2,4)] i by (simp add: next_grid_def)
qed

lemma run_threads_cover:
  assumes "p \<noteq> q" "length (mem p) = nat (w * h)" "length (mem q) = nat (w * h)"
    and "0 < w" "covers w h ts" "\<forall>t \<in> set ts. coords_ok t"
  shows "run_threads ts mem p q w h = Some (mem(q := next_grid (mem p) w h))"
  using run_threads_foldl[OF assms(1-3) assms(6)]
    foldl_thread_step_cover[OF assms(4) assms(3) assms(5) assms(6)]
  by simp

lemma in_launch_blocks:
  assumes "bxi < gx" "byi < gy" "tx < bx" "ty < by"
  shows "\<lparr>blockIdx_x = bxi, blockIdx_y = byi, blockDim_x = bx, blockDim_y = by,
          threadIdx_x = tx, threadIdx_y = ty\<rparr> \<in> set (concat (launch_blocks (gx, gy) (bx, by)))"
  using assms by (force simp add: launch_blocks_def block_threads_def)

lemma covers_launch:
  assumes "w \<le> int (gx * bx)" "h \<le> int (gy * by)" "gx * bx \<le> 2 ^ 31" "gy * by \<le> 2 ^ 31"
  shows "covers w h (concat (launch_blocks (gx, gy) (bx, by)))"
  unfolding covers_def
proof (intro allI impI)
  fix x y :: int
  assume xy: "0 \<le> x \<and> x < w \<and> 0 \<le> y \<and> y < h"
  define X Y where "X = nat x" and "Y = nat y"
  have "int X < int (gx * bx)" "int Y < int (gy * by)" using xy assms(1,2) by (simp_all add: X_def Y_def)
  then have X: "X < gx * bx" and Y: "Y < gy * by" by linarith+
  have bx: "0 < bx" and "by": "0 < by" using X Y by (auto intro: Nat.gr0I)
  let ?t = "\<lparr>blockIdx_x = X div bx, blockIdx_y = Y div by, blockDim_x = bx, blockDim_y = by,
          threadIdx_x = X mod bx, threadIdx_y = Y mod by\<rparr>"
  have "?t \<in> set (concat (launch_blocks (gx, gy) (bx, by)))"
    using X Y bx "by" by (intro in_launch_blocks) (simp_all add: less_mult_imp_div_less)
  moreover have "X < 2 ^ 31" "Y < 2 ^ 31" using X Y assms(3,4) by linarith+
  then have "thread_xy ?t = (x, y)"
    using xy by (simp add: thread_xy_def to_int_small X_def Y_def)
  ultimately show "(x, y) \<in> thread_xy ` set (concat (launch_blocks (gx, gy) (bx, by)))"
    by (metis image_eqI)
qed

lemma single_tile_covers:
  assumes "0 < w" "0 < h" "w \<le> 2 ^ 31" "h \<le> 2 ^ 31"
  shows "covers w h (concat (launch_blocks (1, 1) (nat w, nat h)))"
proof -
  have "1 * nat w \<le> 2 ^ 31" "1 * nat h \<le> 2 ^ 31"
    using assms by (simp_all add: nat_le_iff)
  then show ?thesis using assms(1,2) by (intro covers_launch) simp_all
qed

lemma covers_valid_tiling:
  assumes "valid_tiling w h tiles"
  shows "covers w h (concat tiles)"
  unfolding covers_def
proof (intro allI impI)
  fix x y :: int
  assume "0 \<le> x \<and> x < w \<and> 0 \<le> y \<and> y < h"
  then have "(x, y) \<in> set (grid_cells w h)" by (force simp add: grid_cells_def)
  then have "length (filter (\<lambda>t. thread_xy t = (x, y)) (concat tiles)) = 1"
    using assms by (auto simp add: valid_tiling_def list_all_iff)
  then have "filter (\<lambda>t. thread_xy t = (x, y)) (concat tiles) \<noteq> []" by auto
  then obtain t where "t \<in> set (concat tiles)" "thread_xy t = (x, y)"
    by (auto simp add: filter_empty_conv)
  then show "(x, y) \<in> thread_xy ` set (concat tiles)" by (metis image_eqI)
qed

lemma ceil_div_covers:
  fixes n b :: int
  assumes "0 < n" "0 < b"
  shows "n \<le> int (nat ((n + b - 1) div b) * nat b)"
proof -
  have nn: "0 \<le> (n + b - 1) div b" using assms by (simp add: pos_imp_zdiv_nonneg_iff)
  have "(n + b - 1) div b * b = (n + b - 1) - (n + b - 1) mod b"
    by (simp add: algebra_simps minus_mod_eq_mult_div)
  moreover have "(n + b - 1) mod b \<le> b - 1"
    using assms(2) pos_mod_bound[of b "n + b - 1"] by linarith
  ultimately have "n \<le> (n + b - 1) div b * b" by linarith
  then show ?thesis using nn assms(2) by simp
qed

lemma concat_concat_map: "concat (concat xss) = concat (map concat xss)"
  by (induction xss) simp_all

lemma launch_as_map:
  "concat (launch_blocks gridDim blockDim) = map (index_thread blockDim) (launch_index gridDim blockDim)"
  by (simp add: launch_blocks_def block_threads_def launch_index_def index_thread_def
      List.product_concat_map map_concat comp_def concat_concat_map)

lemma distinct_launch_index: "distinct (launch_index gridDim blockDim)"
  by (simp add: launch_index_def distinct_product)

lemma block_coordinate_inj:
  fixes b b' t t' n :: nat
  assumes "t < n" "t' < n" "b * n + t = b' * n + t'"
  shows "b = b' \<and> t = t'"
proof -
  have "(b * n + t) div n = b" "(b' * n + t') div n = b'" using assms(1,2) by simp_all
  then have "b = b'" using assms(3) by simp
  then show ?thesis using assms(3) by simp
qed

lemma launch_index_bound:
  assumes "(iy, ix, ty, tx) \<in> set (launch_index (gx, gy) (bx, by))"
  shows "ix * bx + tx < gx * bx" "iy * by + ty < gy * by"
proof -
  have b: "ix < gx" "tx < bx" "iy < gy" "ty < by" using assms by (simp_all add: launch_index_def)
  have "ix * bx + tx < Suc ix * bx" using b(2) by simp
  also have "\<dots> \<le> gx * bx" using b(1) by (intro mult_le_mono1) simp
  finally show "ix * bx + tx < gx * bx" .
  have "iy * by + ty < Suc iy * by" using b(4) by simp
  also have "\<dots> \<le> gy * by" using b(3) by (intro mult_le_mono1) simp
  finally show "iy * by + ty < gy * by" .
qed

lemma thread_xy_index:
  assumes "(iy, ix, ty, tx) \<in> set (launch_index (gx, gy) (bx, by))"
    and "gx * bx \<le> 2 ^ 31" "gy * by \<le> 2 ^ 31"
  shows "thread_xy (index_thread (bx, by) (iy, ix, ty, tx)) = (int (ix * bx + tx), int (iy * by + ty))"
proof -
  have "ix * bx + tx < 2 ^ 31" "iy * by + ty < 2 ^ 31"
    using launch_index_bound[OF assms(1)] assms(2,3) by linarith+
  then show ?thesis by (simp add: thread_xy_def index_thread_def to_int_small)
qed

lemma launch_coords_ok:
  assumes "gx * bx \<le> 2 ^ 31" "gy * by \<le> 2 ^ 31"
  shows "\<forall>t \<in> set (concat (launch_blocks (gx, gy) (bx, by))). coords_ok t"
proof
  fix t assume "t \<in> set (concat (launch_blocks (gx, gy) (bx, by)))"
  then obtain i where i: "i \<in> set (launch_index (gx, gy) (bx, by))" and t: "t = index_thread (bx, by) i"
    unfolding launch_as_map by auto
  obtain iy ix ty tx where i': "i = (iy, ix, ty, tx)" by (cases i) auto
  show "coords_ok t"
    using thread_xy_index[OF i[unfolded i'] assms] by (simp add: coords_ok_def t i')
qed

lemma inj_on_launch_xy:
  assumes "gx * bx \<le> 2 ^ 31" "gy * by \<le> 2 ^ 31"
  shows "inj_on (\<lambda>i. thread_xy (index_thread (bx, by) i)) (set (launch_index (gx, gy) (bx, by)))"
proof (rule inj_onI)
  fix i j
  assume i: "i \<in> set (launch_index (gx, gy) (bx, by))" and j: "j \<in> set (launch_index (gx, gy) (bx, by))"
    and eq: "thread_xy (index_thread (bx, by) i) = thread_xy (index_thread (bx, by) j)"
  obtain iy ix ity itx where i': "i = (iy, ix, ity, itx)" by (cases i) auto
  obtain jy jx jty jtx where j': "j = (jy, jx, jty, jtx)" by (cases j) auto
  have bi: "itx < bx" "ity < by" using i by (simp_all add: i' launch_index_def)
  have bj: "jtx < bx" "jty < by" using j by (simp_all add: j' launch_index_def)
  have "int (ix * bx + itx) = int (jx * bx + jtx)" "int (iy * by + ity) = int (jy * by + jty)"
    using eq thread_xy_index[OF i[unfolded i'] assms] thread_xy_index[OF j[unfolded j'] assms]
    unfolding i' j' by simp_all
  then have ex: "ix * bx + itx = jx * bx + jtx" and ey: "iy * by + ity = jy * by + jty"
    by (simp_all only: of_nat_eq_iff)
  from block_coordinate_inj[OF bi(1) bj(1) ex] block_coordinate_inj[OF bi(2) bj(2) ey]
  show "i = j" by (simp add: i' j')
qed

lemma distinct_launch_xy:
  assumes "gx * bx \<le> 2 ^ 31" "gy * by \<le> 2 ^ 31"
  shows "distinct (map thread_xy (concat (launch_blocks (gx, gy) (bx, by))))"
  using distinct_launch_index inj_on_launch_xy[OF assms]
  by (simp add: launch_as_map distinct_map comp_def)

lemma set_grid_cells: "(x, y) \<in> set (grid_cells w h) \<longleftrightarrow> 0 \<le> x \<and> x < w \<and> 0 \<le> y \<and> y < h"
  by (force simp add: grid_cells_def)

lemma launch_valid_tiling:
  assumes "w \<le> int (gx * bx)" "h \<le> int (gy * by)" "gx * bx \<le> 2 ^ 31" "gy * by \<le> 2 ^ 31"
  shows "valid_tiling w h (launch_blocks (gx, gy) (bx, by))"
  unfolding valid_tiling_def list_all_iff
proof (rule conjI[OF launch_coords_ok[OF assms(3,4)]], rule ballI)
  fix c assume c: "c \<in> set (grid_cells w h)"
  let ?ts = "concat (launch_blocks (gx, gy) (bx, by))"
  obtain x y where xy: "c = (x, y)" by (cases c)
  have "c \<in> thread_xy ` set ?ts"
    using covers_launch[OF assms] c unfolding covers_def xy set_grid_cells by blast
  then have "{v. v = c} \<inter> set (map thread_xy ?ts) = {c}" by auto
  moreover have "length (filter (\<lambda>t. thread_xy t = c) ?ts) = length (filter (\<lambda>v. v = c) (map thread_xy ?ts))"
    by (simp add: comp_def)
  ultimately show "length (filter (\<lambda>t. thread_xy t = c) ?ts) = 1"
    using distinct_length_filter[OF distinct_launch_xy[OF assms(3,4)], of "\<lambda>v. v = c"] by simp
qed

lemma ceil_div_bound:
  fixes n b :: int
  assumes "0 < n" "0 < b" "n + b - 1 < 2 ^ 31"
  shows "nat ((n + b - 1) div b) * nat b \<le> 2 ^ 31"
proof -
  have nn: "0 \<le> (n + b - 1) div b" using assms by (simp add: pos_imp_zdiv_nonneg_iff)
  have "(n + b - 1) div b * b \<le> n + b - 1"
    using div_mult_mod_eq[of "n + b - 1" b] pos_mod_sign[OF assms(2), of "n + b - 1"] by linarith
  then have "(n + b - 1) div b * b \<le> 2 ^ 31" using assms(3) by linarith
  moreover have "nat ((n + b - 1) div b) * nat b = nat ((n + b - 1) div b * b)"
    using nn by (simp add: nat_mult_distrib)
  ultimately show ?thesis by (simp add: nat_le_iff)
qed

lemma gridSize_valid_tiling:
  assumes "config_ok cfg"
  shows "\<exists>g. gridSize cfg = Some g \<and>
    valid_tiling (GRID_WIDTH cfg) (GRID_HEIGHT cfg) (launch_blocks g (blockSize cfg))"
proof -
  let ?W = "GRID_WIDTH cfg" and ?H = "GRID_HEIGHT cfg" and ?B = "BLOCK_SIZE cfg"
  let ?g = "(nat ((?W + ?B - 1) div ?B), nat ((?H + ?B - 1) div ?B))"
  have pos: "0 < ?W" "0 < ?H" "0 < ?B" "?W + ?B - 1 < 2 ^ 31" "?H + ?B - 1 < 2 ^ 31"
    using assms by (simp_all add: config_ok_def)
  have g: "gridSize cfg = Some ?g"
    using pos by (simp add: gridSize_def c_div_nonneg)
  have "valid_tiling ?W ?H (launch_blocks ?g (blockSize cfg))"
    unfolding blockSize_def
    using ceil_div_covers[OF pos(1,3)] ceil_div_covers[OF pos(2,3)]
      ceil_div_bound[OF pos(1,3,4)] ceil_div_bound[OF pos(2,3,5)]
    by (intro launch_valid_tiling)
  then show ?thesis using g by simp
qed

lemma launch_cfg:
  assumes "config_ok cfg" "p \<noteq> q"
    and "length (mem p) = nat (GRID_WIDTH cfg * GRID_HEIGHT cfg)"
    and "length (mem q) = nat (GRID_WIDTH cfg * GRID_HEIGHT cfg)"
  shows "\<exists>g. gridSize cfg = Some g \<and>
     updateGrid_launch g (blockSize cfg) mem p q (GRID_WIDTH cfg) (GRID_HEIGHT cfg) =
       Some (mem(q := next_grid (mem p) (GRID_WIDTH cfg) (GRID_HEIGHT cfg)))"
proof -
  let ?W = "GRID_WIDTH cfg" and ?H = "GRID_HEIGHT cfg" and ?B = "BLOCK_SIZE cfg"
  let ?g = "(nat ((?W + ?B - 1) div ?B), nat ((?H + ?B - 1) div ?B))"
  have pos: "0 < ?W" "0 < ?H" "0 < ?B" "?W + ?B - 1 < 2 ^ 31" "?H + ?B - 1 < 2 ^ 31"
    using assms(1) by (simp_all add: config_ok_def)
  note bd = ceil_div_bound[OF pos(1,3,4)] ceil_div_bound[OF pos(2,3,5)]
  have g: "gridSize cfg = Some ?g"
    using pos by (simp add: gridSize_def c_div_nonneg)
  have "covers ?W ?H (concat (launch_blocks ?g (blockSize cfg)))"
    unfolding blockSize_def
    using ceil_div_covers[OF pos(1,3)] ceil_div_covers[OF pos(2,3)] bd by (intro covers_launch)
  moreover have "\<forall>t \<in> set (concat (launch_blocks ?g (blockSize cfg))). coords_ok t"
    unfolding blockSize_def using bd by (rule launch_coords_ok)
  ultimately show ?thesis
    using g run_threads_cover[OF assms(2-4) pos(1)]
    by (simp add: updateGrid_launch_def run_tiles_def)
qed

lemma update_step_ok:
  assumes "config_ok cfg" "state_ok cfg s"
  shows "update_step cfg s =
    Some (s\<lparr>device := (device s)(d_newGrid s :=
                next_grid (device s (d_grid s)) (GRID_WIDTH cfg) (GRID_HEIGHT cfg)),
            d_grid := d_newGrid s, d_newGrid := d_grid s, swaps := swaps s + 1,
            h_grid := next_grid (device s (d_grid s)) (GRID_WIDTH cfg) (GRID_HEIGHT cfg)\<rparr>)"
proof -
  have so: "d_grid s \<noteq> d_newGrid s"
    "length (device s (d_grid s)) = nat (GRID_WIDTH cfg * GRID_HEIGHT cfg)"
    "length (device s (d_newGrid s)) = nat (GRID_WIDTH cfg * GRID_HEIGHT cfg)"
    "length (h_grid s) = nat (GRID_WIDTH cfg * GRID_HEIGHT cfg)"
    using assms(2) by (simp_all add: state_ok_def)
  have pos: "0 < GRID_WIDTH cfg" "0 < GRID_HEIGHT cfg" using assms(1) by (simp_all add: config_ok_def)
  have n: "0 \<le> GRID_WIDTH cfg * GRID_HEIGHT cfg" using pos by simp
  obtain g where g: "gridSize cfg = Some g"
    "updateGrid_launch g (blockSize cfg) (device s) (d_grid s) (d_newGrid s) (GRID_WIDTH cfg) (GRID_HEIGHT cfg) =
       Some ((device s)(d_newGrid s := next_grid (device s (d_grid s)) (GRID_WIDTH cfg) (GRID_HEIGHT cfg)))"
    using launch_cfg[OF assms(1) so(1-3)] by blast
  have len: "length (next_grid (device s (d_grid s)) (GRID_WIDTH cfg) (GRID_HEIGHT cfg)) = nat (GRID_WIDTH cfg * GRID_HEIGHT cfg)"
    by (simp add: next_grid_def)
  show ?thesis
    using n by (simp add: update_step_def g memcpy_def so len Let_def)
qed

subsection \<open>Generations and the all-dead grid\<close>

lemma length_next_grid [simp]: "length (next_grid g w h) = nat (w * h)"
  by (simp add: next_grid_def)

lemma update_step_state_ok:
  assumes "config_ok cfg" "state_ok cfg s" "update_step cfg s = Some s'"
  shows "state_ok cfg s'"
  using assms(2,3) unfolding update_step_ok[OF assms(1,2)]
  by (auto simp add: state_ok_def)

lemma next_cell_dead:
  assumes "0 < w" "0 < h" "length g = nat (w * h)" "all_dead g"
  shows "next_cell g w h x y = 0"
proof -
  have "cell_at g w (wrap x dx w) (wrap y dy h) = 0" for dx dy
    using wrapped_cell_in_set[OF assms(1-3), of x dx y dy] assms(4)
    by (simp add: all_dead_def list_all_iff)
  then have "byte_sum g w h x y = 0"
    by (simp add: byte_sum_def offsets_def)
  then show ?thesis by (simp add: next_cell_def)
qed

lemma next_grid_dead:
  assumes "0 < w" "0 < h" "length g = nat (w * h)" "all_dead g"
  shows "all_dead (next_grid g w h)"
  using next_cell_dead[OF assms] by (simp add: all_dead_def list_all_iff next_grid_def)

lemma generations_dead:
  assumes "config_ok cfg" "state_ok cfg s" "all_dead (device s (d_grid s))"
  shows "\<exists>s'. generations cfg n s = Some s' \<and> state_ok cfg s' \<and> all_dead (device s' (d_grid s'))"
  using assms(2,3)
proof (induction n arbitrary: s)
  case 0
  then show ?case by simp
next
  case (Suc n)
  let ?W = "GRID_WIDTH cfg" and ?H = "GRID_HEIGHT cfg"
  have pos: "0 < ?W" "0 < ?H" using assms(1) by (simp_all add: config_ok_def)
  have len: "length (device s (d_grid s)) = nat (?W * ?H)"
    using Suc.prems(1) by (simp add: state_ok_def)
  obtain s1 where s1: "update_step cfg s = Some s1"
    and cur: "device s1 (d_grid s1) = next_grid (device s (d_grid s)) ?W ?H"
    using update_step_ok[OF assms(1) Suc.prems(1)] by simp
  have ok1: "state_ok cfg s1" using update_step_state_ok[OF assms(1) Suc.prems(1) s1] .
  have dead1: "all_dead (device s1 (d_grid s1))"
    unfolding cur using next_grid_dead[OF pos len Suc.prems(2)] .
  from Suc.IH[OF ok1 dead1] s1 show ?case by simp
qed

subsection \<open>The loop of \<^verbatim>\<open>main\<close>\<close>

lemma c_rem_zero_iff:
  assumes "0 < b"
  shows "\<exists>r. c_rem a b = Some r \<and> (r = 0 \<longleftrightarrow> a mod b = 0)"
proof -
  have "\<bar>a\<bar> mod b = 0 \<longleftrightarrow> a mod b = 0"
    by (simp add: dvd_eq_mod_eq_0 [symmetric])
  then show ?thesis using assms by (auto simp add: c_rem_def sgn_if)
qed

lemma ceil_div_step:
  fixes a F :: int
  assumes "0 < F"
  shows "(a + 1 + F - 1) div F - (a + F - 1) div F = (if a mod F = 0 then 1 else 0)"
proof -
  have 1: "(a + 1 + F - 1) div F = a div F + 1" using assms div_add_self2[of F a] by simp
  have 2: "(a + F - 1) div F = a div F + (if a mod F = 0 then 0 else 1)"
  proof (cases "a mod F = 0")
    case True
    then have "a + F - 1 = F * (a div F) + (F - 1)" by (metis add_diff_eq add.commute mult_div_mod_eq add.right_neutral add.assoc)
    then have "(a + F - 1) div F = a div F + (F - 1) div F" using assms
      by (metis div_mult_self2 add.commute less_irrefl)
    then show ?thesis using True assms by (simp add: div_pos_pos_trivial)
  next
    case False
    define r where "r = a mod F"
    have r: "1 \<le> r" "r < F"
      using False pos_mod_sign[OF assms, of a] pos_mod_bound[OF assms, of a]
      unfolding r_def by linarith+
    have "a + F - 1 = F * (a div F + 1) + (r - 1)"
      using mult_div_mod_eq[of F a] by (simp add: r_def algebra_simps)
    then have "(a + F - 1) div F = a div F + 1 + (r - 1) div F" using assms
      by (metis div_mult_self2 add.commute less_irrefl)
    then show ?thesis using False r by (simp add: div_pos_pos_trivial)
  qed
  show ?thesis unfolding 1 2 by simp
qed

lemma frame_step:
  assumes "config_ok cfg" "0 < UPDATE_FREQUENCY cfg" "state_ok cfg s"
  shows "\<exists>s1. frame cfg events s = Some s1 \<and> state_ok cfg s1 \<and>
           frameCount s1 = frameCount s + 1 \<and>
           swaps s1 = swaps s + (if frameCount s mod UPDATE_FREQUENCY cfg = 0 then 1 else 0) \<and>
           quit s1 = (quit s \<or> SDL_QUIT \<in> set events)"
proof -
  let ?s1 = "s\<lparr>quit := quit s \<or> SDL_QUIT \<in> set events\<rparr>"
  have ok1: "state_ok cfg ?s1" using assms(3) by (simp add: state_ok_def)
  obtain r where r: "c_rem (frameCount s) (UPDATE_FREQUENCY cfg) = Some r"
    "r = 0 \<longleftrightarrow> frameCount s mod UPDATE_FREQUENCY cfg = 0"
    using c_rem_zero_iff[OF assms(2)] by blast
  show ?thesis
  proof (cases "r = 0")
    case True
    then show ?thesis
      using r ok1 update_step_ok[OF assms(1) ok1]
      by (simp add: frame_def state_ok_def)
  next
    case False
    then show ?thesis
      using r ok1 by (simp add: frame_def state_ok_def)
  qed
qed

lemma main_loop_counts:
  assumes "config_ok cfg" "0 < UPDATE_FREQUENCY cfg" "state_ok cfg s"
  shows "\<exists>s'. main_loop cfg evs s = Some s' \<and> state_ok cfg s' \<and>
           frameCount s \<le> frameCount s' \<and> frameCount s' - frameCount s \<le> int (length evs) \<and>
           int (swaps s') - int (swaps s) =
             (frameCount s' + UPDATE_FREQUENCY cfg - 1) div UPDATE_FREQUENCY cfg
             - (frameCount s + UPDATE_FREQUENCY cfg - 1) div UPDATE_FREQUENCY cfg \<and>
           (\<not> quit s \<and> SDL_QUIT \<notin> \<Union> (set ` set evs) \<longrightarrow>
              frameCount s' = frameCount s + int (length evs) \<and> \<not> quit s')"
  using assms(3)
proof (induction evs arbitrary: s)
  case Nil
  then show ?case by simp
next
  case (Cons events rest)
  show ?case
  proof (cases "quit s")
    case True
    then show ?thesis using Cons.prems by simp
  next
    case False
    let ?F = "UPDATE_FREQUENCY cfg"
    obtain s1 where s1: "frame cfg events s = Some s1" "state_ok cfg s1"
      "frameCount s1 = frameCount s + 1"
      "swaps s1 = swaps s + (if frameCount s mod ?F = 0 then 1 else 0)"
      "quit s1 = (quit s \<or> SDL_QUIT \<in> set events)"
      using frame_step[OF assms(1,2) Cons.prems] by blast
    obtain s' where s': "main_loop cfg rest s1 = Some s'" "state_ok cfg s'"
      "frameCount s1 \<le> frameCount s'" "frameCount s' - frameCount s1 \<le> int (length rest)"
      "int (swaps s') - int (swaps s1) = (frameCount s' + ?F - 1) div ?F - (frameCount s1 + ?F - 1) div ?F"
      "\<not> quit s1 \<and> SDL_QUIT \<notin> \<Union> (set ` set rest) \<longrightarrow>
         frameCount s' = frameCount s1 + int (length rest) \<and> \<not> quit s'"
      using Cons.IH[OF s1(2)] by blast
    have "int (swaps s1) - int (swaps s) = (frameCount s1 + ?F - 1) div ?F - (frameCount s + ?F - 1) div ?F"
      using ceil_div_step[OF assms(2), of "frameCount s"] s1(3,4) by simp
    then have "int (swaps s') - int (swaps s) = (frameCount s' + ?F - 1) div ?F - (frameCount s + ?F - 1) div ?F"
      using s'(5) by linarith
    then show ?thesis using False s1 s' by simp
  qed
qed

subsection \<open>The initial pattern and the values of the cells\<close>

declare initializeGrid_loop.simps [simp del]

lemma initializeGrid_loop_result:
  assumes "0 \<le> i" "i \<le> w * h" "length grid = nat (w * h)"
  shows "initializeGrid_loop dis grid w h i =
    Some (take (nat i) grid @ map (\<lambda>k. word_of_int (dis k)) [nat i..<nat (w * h)])"
  using assms
proof (induction dis grid w h i rule: initializeGrid_loop.induct)
  case (1 dis grid width height i)
  show ?case
  proof (cases "i < width * height")
    case True
    let ?g = "grid[nat i := word_of_int (dis (nat i))]"
    have lt: "nat i < length grid" using True "1.prems" by simp
    have "initializeGrid_loop dis grid width height i = initializeGrid_loop dis ?g width height (i + 1)"
      using True "1.prems" by (subst initializeGrid_loop.simps) simp
    also have "\<dots> = Some (take (nat (i + 1)) ?g @ map (\<lambda>k. word_of_int (dis k)) [nat (i + 1)..<nat (width * height)])"
      using True "1.prems" by (intro "1.IH") simp_all
    also have "take (nat (i + 1)) ?g = take (nat i) grid @ [word_of_int (dis (nat i))]"
      using lt "1.prems"(1) by (simp add: nat_add_distrib take_Suc_conv_app_nth)
    also have "(take (nat i) grid @ [word_of_int (dis (nat i))]) @ map (\<lambda>k. word_of_int (dis k)) [nat (i + 1)..<nat (width * height)]
        = take (nat i) grid @ map (\<lambda>k. word_of_int (dis k)) [nat i..<nat (width * height)]"
      using lt "1.prems" by (simp add: nat_add_distrib upt_conv_Cons)
    finally show ?thesis .
  next
    case False
    then have "i = width * height" using "1.prems" by simp
    then show ?thesis using "1.prems" by (subst initializeGrid_loop.simps) simp
  qed
qed

lemma initializeGrid_result:
  assumes "0 \<le> w * h" "length grid = nat (w * h)"
  shows "initializeGrid dis grid w h = Some (drawn dis (w * h))"
  using initializeGrid_loop_result[of 0 w h grid dis] assms
  by (simp add: initializeGrid_def drawn_def)

lemma length_alloc [simp]: "length (alloc junk n) = nat n"
  by (simp add: alloc_def)

lemma length_drawn [simp]: "length (drawn dis n) = nat n"
  by (simp add: drawn_def)

lemma alloc_nth: "i < nat n \<Longrightarrow> alloc junk n ! i = junk i"
  by (simp add: alloc_def)

lemma main_init_result:
  assumes "config_ok cfg"
  shows "main_init cfg dis junk_h junk_d junk_n =
    Some \<lparr>device = (\<lambda>_. [])(0 := drawn dis (GRID_WIDTH cfg * GRID_HEIGHT cfg),
                            1 := alloc junk_n (GRID_WIDTH cfg * GRID_HEIGHT cfg)),
          d_grid = 0, d_newGrid = 1, h_grid = drawn dis (GRID_WIDTH cfg * GRID_HEIGHT cfg),
          frameCount = 0, quit = False, swaps = 0\<rparr>"
proof -
  have n: "0 \<le> GRID_WIDTH cfg * GRID_HEIGHT cfg"
    using assms by (simp add: config_ok_def)
  show ?thesis
    using n by (simp add: main_init_def Let_def initializeGrid_result memcpy_def)
qed

lemma cells01_drawn:
  assumes "\<forall>k. dis k = 0 \<or> dis k = 1"
  shows "cells01 (drawn dis n)"
  unfolding cells01_def drawn_def list_all_iff
proof
  fix c assume "c \<in> set (map (\<lambda>k. word_of_int (dis k)) [0..<nat n])"
  then obtain k where "c = word_of_int (dis k)" by auto
  then show "c = 0 \<or> c = 1" using assms[rule_format, of k] by auto
qed

lemma next_cell_bit: "next_cell g w h x y = 0 \<or> next_cell g w h x y = 1"
  by (simp add: next_cell_def Let_def)

lemma cells01_next_grid: "cells01 (next_grid g w h)"
  using next_cell_bit by (auto simp add: cells01_def list_all_iff next_grid_def)

lemma frame_cells01:
  assumes "config_ok cfg" "0 < UPDATE_FREQUENCY cfg" "state_ok cfg s"
    and "cells01 (device s (d_grid s))" "cells01 (h_grid s)"
    and "0 < swaps s \<longrightarrow> cells01 (device s (d_newGrid s))"
    and "frame cfg events s = Some s1"
  shows "cells01 (device s1 (d_grid s1)) \<and> cells01 (h_grid s1) \<and>
         (0 < swaps s1 \<longrightarrow> cells01 (device s1 (d_newGrid s1)))"
proof -
  let ?s1 = "s\<lparr>quit := quit s \<or> SDL_QUIT \<in> set events\<rparr>"
  have ok1: "state_ok cfg ?s1" using assms(3) by (simp add: state_ok_def)
  have ne: "d_grid s \<noteq> d_newGrid s" using assms(3) by (simp add: state_ok_def)
  obtain r where r: "c_rem (frameCount s) (UPDATE_FREQUENCY cfg) = Some r"
    using c_rem_zero_iff[OF assms(2)] by blast
  show ?thesis
  proof (cases "r = 0")
    case True
    then show ?thesis
      using r assms(4-7) ne update_step_ok[OF assms(1) ok1] cells01_next_grid
      by (auto simp add: frame_def)
  next
    case False
    then show ?thesis
      using r assms(4-7) by (auto simp add: frame_def)
  qed
qed

lemma main_loop_cells01:
  assumes "config_ok cfg" "0 < UPDATE_FREQUENCY cfg" "state_ok cfg s"
    and "cells01 (device s (d_grid s))" "cells01 (h_grid s)"
    and "0 < swaps s \<longrightarrow> cells01 (device s (d_newGrid s))"
  shows "\<exists>s'. main_loop cfg evs s = Some s' \<and> cells01 (device s' (d_grid s')) \<and> cells01 (h_grid s') \<and>
         (0 < swaps s' \<longrightarrow> cells01 (device s' (d_newGrid s')))"
  using assms(3-6)
proof (induction evs arbitrary: s)
  case Nil
  then show ?case by simp
next
  case (Cons events rest)
  show ?case
  proof (cases "quit s")
    case True
    then show ?thesis using Cons.prems by simp
  next
    case False
    obtain s1 where s1: "frame cfg events s = Some s1" "state_ok cfg s1"
      using frame_step[OF assms(1,2) Cons.prems(1)] by blast
    have inv: "cells01 (device s1 (d_grid s1))" "cells01 (h_grid s1)"
      "0 < swaps s1 \<longrightarrow> cells01 (device s1 (d_newGrid s1))"
      using frame_cells01[OF assms(1,2) Cons.prems s1(1)] by simp_all
    from Cons.IH[OF s1(2) inv] False s1(1) show ?thesis by simp
  qed
qed

subsection \<open>The state in which the loop starts\<close>

lemma config_ok_kernel_cu: "config_ok kernel_cu" "0 < UPDATE_FREQUENCY kernel_cu"
  by (simp_all add: config_ok_def kernel_cu_def)

lemma kernel_cu_size: "0 < GRID_WIDTH kernel_cu * GRID_HEIGHT kernel_cu"
  by (simp add: kernel_cu_def)

lemma start_state_eq:
  "start_state =
     \<lparr>device = (\<lambda>_. [])(0 := drawn (\<lambda>k. int (k mod 2)) (GRID_WIDTH kernel_cu * GRID_HEIGHT kernel_cu),
                         1 := alloc (\<lambda>_. 2) (GRID_WIDTH kernel_cu * GRID_HEIGHT kernel_cu)),
       d_grid = 0, d_newGrid = 1,
       h_grid = drawn (\<lambda>k. int (k mod 2)) (GRID_WIDTH kernel_cu * GRID_HEIGHT kernel_cu),
       frameCount = 0, quit = False, swaps = 0\<rparr>"
  by (simp add: start_state_def main_init_result[OF config_ok_kernel_cu(1)])

lemma start_state_ok: "state_ok kernel_cu start_state"
  by (simp add: start_state_eq state_ok_def)

lemma start_state_fields: "frameCount start_state = 0" "swaps start_state = 0" "\<not> quit start_state"
  by (simp_all add: start_state_eq)

subsection \<open>From the torus to the plane\<close>

lemma length_place [simp]: "length (place w h cells ox oy) = nat (w * h)"
  by (simp add: place_def)

lemma mod_eq_near:
  fixes u v w :: int
  assumes "u mod w = v mod w" "\<bar>u - v\<bar> < w"
  shows "u = v"
proof (rule ccontr)
  assume "u \<noteq> v"
  then have ne: "u - v \<noteq> 0" by simp
  have "w dvd u - v" using assms(1) by (simp add: mod_eq_dvd_iff)
  then have "\<bar>w\<bar> \<le> \<bar>u - v\<bar>" using ne by (rule dvd_imp_le_int[rotated])
  then show False using assms(2) by linarith
qed

lemma on_torus_iff:
  assumes "\<And>cx cy. (cx, cy) \<in> set P \<Longrightarrow> \<bar>cx - x\<bar> < w \<and> \<bar>cy - y\<bar> < h"
  shows "((x + ox) mod w, (y + oy) mod h) \<in> set (on_torus w h P ox oy) \<longleftrightarrow> (x, y) \<in> set P"
proof
  assume "(x, y) \<in> set P"
  then show "((x + ox) mod w, (y + oy) mod h) \<in> set (on_torus w h P ox oy)"
    unfolding on_torus_def set_map by (rule image_eqI[rotated]) simp
next
  assume "((x + ox) mod w, (y + oy) mod h) \<in> set (on_torus w h P ox oy)"
  then obtain c where c: "c \<in> set P"
    and eq: "((x + ox) mod w, (y + oy) mod h) = (case c of (cx, cy) \<Rightarrow> ((cx + ox) mod w, (cy + oy) mod h))"
    unfolding on_torus_def set_map by (rule imageE)
  obtain cx cy where cxy: "c = (cx, cy)" by (cases c)
  have m: "(cx + ox) mod w = (x + ox) mod w" "(cy + oy) mod h = (y + oy) mod h"
    using eq unfolding cxy by simp_all
  have near: "\<bar>cx - x\<bar> < w" "\<bar>cy - y\<bar> < h" using assms[of cx cy] c cxy by simp_all
  have "\<bar>(cx + ox) - (x + ox)\<bar> < w" "\<bar>(cy + oy) - (y + oy)\<bar> < h" using near by simp_all
  then have "cx + ox = x + ox" "cy + oy = y + oy"
    using m mod_eq_near by blast+
  then show "(x, y) \<in> set P" using c cxy by simp
qed

lemma cell_at_place:
  assumes "0 \<le> X" "X < w" "0 \<le> Y" "Y < h"
  shows "cell_at (place w h P ox oy) w X Y = (if (X, Y) \<in> set (on_torus w h P ox oy) then 1 else 0)"
proof -
  have b: "0 \<le> Y * w + X" "Y * w + X < w * h" using idx_bound[OF assms] by simp_all
  then have "nat (Y * w + X) < nat (w * h)" by simp
  moreover have "int (nat (Y * w + X)) mod w = X" "int (nat (Y * w + X)) div w = Y"
    using b(1) cell_index[OF assms(1,2), of Y] by simp_all
  ultimately show ?thesis by (simp add: cell_at_def place_def)
qed

lemma rep_range: "0 < w \<Longrightarrow> - 1 \<le> rep w ofs X \<and> rep w ofs X < w - 1"
  using pos_mod_sign[of w "X - ofs + 1"] pos_mod_bound[of w "X - ofs + 1"]
  unfolding rep_def by linarith

lemma rep_mod: "(rep w ofs X + d + ofs) mod w = (X + d + w) mod w"
proof -
  have "rep w ofs X + d + ofs = (X - ofs + 1) mod w + (d + ofs - 1)"
    by (simp add: rep_def)
  also have "\<dots> mod w = ((X - ofs + 1) + (d + ofs - 1)) mod w"
    by (rule mod_add_left_eq)
  also have "(X - ofs + 1) + (d + ofs - 1) = X + d" by simp
  also have "(X + d) mod w = (X + d + w) mod w" by simp
  finally show ?thesis .
qed

lemma in_boxD: "in_box P \<Longrightarrow> (cx, cy) \<in> set P \<Longrightarrow> 0 \<le> cx \<and> cx < 4 \<and> 0 \<le> cy \<and> cy < 4"
  by (auto simp add: in_box_def list_all_iff)

lemma torus_cell_plane:
  assumes "6 \<le> w" "6 \<le> h" "in_box P" "0 \<le> X" "X < w" "0 \<le> Y" "Y < h"
    and "dx \<in> {-1, 0, 1}" "dy \<in> {-1, 0, 1}"
  shows "cell_at (place w h P ox oy) w (wrap X dx w) (wrap Y dy h) =
    (if (rep w ox X + dx, rep h oy Y + dy) \<in> set P then 1 else 0)"
proof -
  let ?x = "rep w ox X + dx" and ?y = "rep h oy Y + dy"
  have pos: "0 < w" "0 < h" using assms(1,2) by simp_all
  have wx: "wrap X dx w = (?x + ox) mod w" using rep_mod[of w ox X dx] by (simp add: wrap_def)
  have wy: "wrap Y dy h = (?y + oy) mod h" using rep_mod[of h oy Y dy] by (simp add: wrap_def)
  have near: "\<bar>cx - ?x\<bar> < w \<and> \<bar>cy - ?y\<bar> < h" if "(cx, cy) \<in> set P" for cx cy
    using in_boxD[OF assms(3) that] rep_range[OF pos(1), of ox X] rep_range[OF pos(2), of oy Y]
      assms(1,2,8,9) by auto
  have "(wrap X dx w, wrap Y dy h) \<in> set (on_torus w h P ox oy) \<longleftrightarrow> (?x, ?y) \<in> set P"
    unfolding wx wy using near by (rule on_torus_iff)
  then show ?thesis
    using cell_at_place[of "wrap X dx w" w "wrap Y dy h" h P ox oy]
      wrap_range[OF pos(1), of X dx] wrap_range[OF pos(2), of Y dy] by simp
qed

lemma wrap_zero: "0 \<le> X \<Longrightarrow> X < w \<Longrightarrow> wrap X 0 w = X"
  by (simp add: wrap_def)

lemma next_cell_place:
  assumes "6 \<le> w" "6 \<le> h" "in_box P" "0 \<le> X" "X < w" "0 \<le> Y" "Y < h"
  shows "next_cell (place w h P ox oy) w h X Y =
    (if plane_alive_next P (rep w ox X, rep h oy Y) then 1 else 0)"
proof -
  note tc = torus_cell_plane[OF assms, of _ _ ox oy]
  have cnt: "byte_sum (place w h P ox oy) w h X Y = plane_count P (rep w ox X) (rep h oy Y)"
    unfolding byte_sum_def plane_count_def offsets_def by (simp add: tc)
  have "cell_at (place w h P ox oy) w X Y = (if (rep w ox X, rep h oy Y) \<in> set P then 1 else 0)"
    using tc[of 0 0] by (simp add: wrap_zero assms)
  then show ?thesis
    by (simp add: next_cell_def cnt plane_alive_next_def Let_def)
qed

lemma plane_count_far:
  assumes "in_box P" "\<not> (- 1 \<le> x \<and> x \<le> 4 \<and> - 1 \<le> y \<and> y \<le> 4)"
  shows "plane_count P x y = 0"
proof -
  have "(a, b) \<notin> set P" if "\<bar>a - x\<bar> \<le> 1" "\<bar>b - y\<bar> \<le> 1" for a b
    using in_boxD[OF assms(1), of a b] assms(2) that by auto
  then show ?thesis
    unfolding plane_count_def offsets_def by simp
qed

lemma plane_step_iff:
  assumes "in_box P"
  shows "(x, y) \<in> set (plane_step P) \<longleftrightarrow> plane_alive_next P (x, y)"
proof (cases "- 1 \<le> x \<and> x \<le> 4 \<and> - 1 \<le> y \<and> y \<le> 4")
  case True
  then have "(x, y) \<in> set [(x, y). y \<leftarrow> [-1..4], x \<leftarrow> [-1..4]]" by force
  then show ?thesis by (simp add: plane_step_def)
next
  case False
  then have "(x, y) \<notin> set [(x, y). y \<leftarrow> [-1..4], x \<leftarrow> [-1..4]]" by force
  moreover have "\<not> plane_alive_next P (x, y)"
    using plane_count_far[OF assms False] by (simp add: plane_alive_next_def)
  ultimately show ?thesis by (simp add: plane_step_def)
qed

lemma plane_step_window:
  "(cx, cy) \<in> set (plane_step P) \<Longrightarrow> - 1 \<le> cx \<and> cx \<le> 4 \<and> - 1 \<le> cy \<and> cy \<le> 4"
  by (auto simp add: plane_step_def)

lemma on_torus_plane_step:
  assumes "6 \<le> w" "6 \<le> h" "in_box P" "0 \<le> X" "X < w" "0 \<le> Y" "Y < h"
  shows "(X, Y) \<in> set (on_torus w h (plane_step P) ox oy) \<longleftrightarrow>
    plane_alive_next P (rep w ox X, rep h oy Y)"
proof -
  let ?x = "rep w ox X" and ?y = "rep h oy Y"
  have pos: "0 < w" "0 < h" using assms(1,2) by simp_all
  have X: "X = (?x + ox) mod w" using rep_mod[of w ox X 0] assms(4,5) by simp
  have Y: "Y = (?y + oy) mod h" using rep_mod[of h oy Y 0] assms(6,7) by simp
  have near: "\<bar>cx - ?x\<bar> < w \<and> \<bar>cy - ?y\<bar> < h" if "(cx, cy) \<in> set (plane_step P)" for cx cy
    using plane_step_window[OF that] rep_range[OF pos(1), of ox X] rep_range[OF pos(2), of oy Y]
      assms(1,2) by auto
  have "((?x + ox) mod w, (?y + oy) mod h) \<in> set (on_torus w h (plane_step P) ox oy) \<longleftrightarrow>
      (?x, ?y) \<in> set (plane_step P)"
    using near by (rule on_torus_iff)
  then show ?thesis
    using X Y plane_step_iff[OF assms(3), of ?x ?y] by simp
qed

lemma next_grid_place:
  assumes "6 \<le> w" "6 \<le> h" "in_box P"
  shows "next_grid (place w h P ox oy) w h = place w h (plane_step P) ox oy"
proof -
  have pos: "0 < w" using assms(1) by simp
  have "next_cell (place w h P ox oy) w h (int i mod w) (int i div w) =
      (if (int i mod w, int i div w) \<in> set (on_torus w h (plane_step P) ox oy) then 1 else 0)"
    if "i < nat (w * h)" for i
    using index_cell(1-4)[OF pos that]
      next_cell_place[OF assms, of "int i mod w" "int i div w" ox oy]
      on_torus_plane_step[OF assms, of "int i mod w" "int i div w" ox oy]
    by simp
  then show ?thesis
    by (simp add: next_grid_def place_def)
qed

subsection \<open>Four generations of the glider\<close>

lemma generations_next_grid:
  assumes "config_ok cfg" "state_ok cfg s"
  shows "\<exists>s'. generations cfg n s = Some s' \<and> state_ok cfg s' \<and>
    device s' (d_grid s') =
      ((\<lambda>g. next_grid g (GRID_WIDTH cfg) (GRID_HEIGHT cfg)) ^^ n) (device s (d_grid s))"
  using assms(2)
proof (induction n arbitrary: s)
  case 0
  then show ?case by simp
next
  case (Suc n)
  let ?F = "\<lambda>g. next_grid g (GRID_WIDTH cfg) (GRID_HEIGHT cfg)"
  obtain s1 where s1: "update_step cfg s = Some s1"
    and cur: "device s1 (d_grid s1) = ?F (device s (d_grid s))"
    using update_step_ok[OF assms(1) Suc.prems] by simp
  have ok1: "state_ok cfg s1" using update_step_state_ok[OF assms(1) Suc.prems s1] .
  from Suc.IH[OF ok1] obtain s' where s': "generations cfg n s1 = Some s'" "state_ok cfg s'"
    "device s' (d_grid s') = (?F ^^ n) (device s1 (d_grid s1))"
    by (elim exE conjE)
  have "device s' (d_grid s') = (?F ^^ Suc n) (device s (d_grid s))"
    unfolding s'(3) cur by (simp only: funpow_Suc_right o_apply)
  then show ?case using s1 s'(1,2) by simp
qed

lemma glider_steps:
  "plane_step glider = [(0, 1), (2, 1), (1, 2), (2, 2), (1, 3)]"
  "plane_step [(0, 1), (2, 1), (1, 2), (2, 2), (1, 3)] = [(2, 1), (0, 2), (2, 2), (1, 3), (2, 3)]"
  "plane_step [(2, 1), (0, 2), (2, 2), (1, 3), (2, 3)] = [(1, 1), (2, 2), (3, 2), (1, 3), (2, 3)]"
  "plane_step [(1, 1), (2, 2), (3, 2), (1, 3), (2, 3)] = [(2, 1), (3, 2), (1, 3), (2, 3), (3, 3)]"
  by code_simp+

lemma glider_boxes:
  "in_box glider"
  "in_box [(0, 1), (2, 1), (1, 2), (2, 2), (1, 3)]"
  "in_box [(2, 1), (0, 2), (2, 2), (1, 3), (2, 3)]"
  "in_box [(1, 1), (2, 2), (3, 2), (1, 3), (2, 3)]"
  by (simp_all add: in_box_def glider_def)

lemma place_shift:
  "place w h [(2, 1), (3, 2), (1, 3), (2, 3), (3, 3)] ox oy = place w h glider (ox + 1) (oy + 1)"
proof -
  have "on_torus w h [(2, 1), (3, 2), (1, 3), (2, 3), (3, 3)] ox oy =
      on_torus w h glider (ox + 1) (oy + 1)"
    by (simp add: on_torus_def glider_def algebra_simps)
  then show ?thesis by (simp add: place_def)
qed

lemma glider_four:
  assumes "6 \<le> w" "6 \<le> h"
  shows "((\<lambda>g. next_grid g w h) ^^ 4) (place w h glider ox oy) = place w h glider (ox + 1) (oy + 1)"
proof -
  note lift = next_grid_place[OF assms]
  show ?thesis
    by (simp add: eval_nat_numeral lift glider_boxes glider_steps place_shift)
qed

section \<open>The claims\<close>

text \<open>
  C1. The update rule: the byte that the kernel stores for a cell of the grid is 1 when
  the neighbour count it computed is 3, or is 2 and the cell is alive in the current
  buffer, and 0 in every other case. So a cell with exactly 3 live neighbours is alive in
  the next generation, a live cell with exactly 2 stays alive and a dead cell with
  exactly 2 stays dead.
\<close>

theorem update_rule:
  assumes "0 \<le> x" "x < w" "0 \<le> y" "y < h"
    and "length (mem p) = nat (w * h)" "length (mem q) = nat (w * h)"
  shows "\<exists>count mem'. neighbor_count (mem p) w h x y = Some count \<and>
           updateGrid_at mem p q w h x y = Some mem' \<and>
           mem' q ! nat (y * w + x) =
             (if count = 3 \<or> (count = 2 \<and> cell_at (mem p) w x y \<noteq> 0) then 1 else 0)"
proof -
  have "nat (y * w + x) < length (mem q)"
    using idx_bound[OF assms(1-4)] assms(6) by simp
  then show ?thesis
    using neighbor_count_byte_sum[OF assms(1-5)] updateGrid_at_in[OF assms]
    by (simp add: next_cell_def)
qed

theorem update_rule_witness:
  "neighbor_count (demo_mem 0) 4 3 0 0 = Some 3 \<and> cell_at (demo_mem 0) 4 0 0 = 0 \<and>
   (the (updateGrid_at demo_mem 0 1 4 3 0 0)) 1 ! nat (0 * 4 + 0) = 1"
proof -
  have l: "length (demo_mem 0) = nat (4 * 3)" "length (demo_mem 1) = nat (4 * 3)"
    by (simp_all add: demo_mem_def demo_grid_def)
  have n: "neighbor_count (demo_mem 0) 4 3 0 0 = Some 3" by code_simp
  have c: "cell_at (demo_mem 0) 4 0 0 = 0" by code_simp
  show ?thesis
    using update_rule[of 0 4 0 3 demo_mem 0 1, OF _ _ _ _ l] n c by auto
qed

text \<open>
  C2. For a cell \<open>(x, y)\<close> of the grid and a current buffer whose cells are 0 or 1, the
  neighbour count of the kernel is the number of live cells among the eight positions
  \<open>(x + dx, y + dy)\<close>, each axis wrapped, and lies between 0 and 8. It is a function of
  the buffer, the sizes and the coordinate alone.
\<close>

theorem neighbor_count_correct:
  assumes "0 \<le> x" "x < w" "0 \<le> y" "y < h" "length g = nat (w * h)" "cells01 g"
  shows "neighbor_count g w h x y = Some (int (live_neighbours g w h x y)) \<and>
         0 \<le> int (live_neighbours g w h x y) \<and> int (live_neighbours g w h x y) \<le> 8"
proof -
  have "0 < w" "0 < h" using assms(1-4) by linarith+
  then have "byte_sum g w h x y = int (live_neighbours g w h x y)"
    using assms(5,6) by (rule byte_sum_live)
  then show ?thesis
    using neighbor_count_byte_sum[OF assms(1-5)] live_neighbours_le[of g w h x y] by simp
qed

theorem neighbor_count_correct_witness:
  "cells01 demo_grid \<and> length demo_grid = nat (4 * 3) \<and>
   neighbor_count demo_grid 4 3 1 1 = Some (int (live_neighbours demo_grid 4 3 1 1)) \<and>
   live_neighbours demo_grid 4 3 1 1 = 5"
proof -
  have c: "cells01 demo_grid" by (simp add: cells01_def demo_grid_def)
  have l: "length demo_grid = nat (4 * 3)" by (simp add: demo_grid_def)
  have v: "live_neighbours demo_grid 4 3 1 1 = 5" by code_simp
  show ?thesis
    using neighbor_count_correct[of 1 4 1 3 demo_grid, OF _ _ _ _ l c] c l v by simp
qed

text \<open>
  C3. Partition invariance: for sizes that are values of type \<^verbatim>\<open>int\<close> and a valid
  tiling of the grid, running the kernel tile by tile gives the same memory as running
  it on the single tile of one block of \<open>w\<close> by \<open>h\<close> threads, and it does give a memory.
  The blocks of a launch are a valid tiling when they reach over the grid and no thread
  index reaches \<open>2 ^ 31\<close>; the blocks that lines 91 and 92 set up are one.
\<close>

theorem partition_invariance:
  assumes "valid_tiling w h tiles" "0 < w" "0 < h" "w < 2 ^ 31" "h < 2 ^ 31" "p \<noteq> q"
    and "length (mem p) = nat (w * h)" "length (mem q) = nat (w * h)"
  shows "run_tiles tiles mem p q w h = run_tiles (launch_blocks (1, 1) (nat w, nat h)) mem p q w h \<and>
         run_tiles tiles mem p q w h \<noteq> None \<and>
         (\<forall>gx gy bx by. w \<le> int (gx * bx) \<and> h \<le> int (gy * by) \<and>
              gx * bx \<le> 2 ^ 31 \<and> gy * by \<le> 2 ^ 31 \<longrightarrow>
            valid_tiling w h (launch_blocks (gx, gy) (bx, by))) \<and>
         (\<forall>cfg. config_ok cfg \<longrightarrow>
            (\<exists>g. gridSize cfg = Some g \<and>
               valid_tiling (GRID_WIDTH cfg) (GRID_HEIGHT cfg) (launch_blocks g (blockSize cfg))))"
proof -
  have ok: "\<forall>t \<in> set (concat tiles). coords_ok t"
    using assms(1) by (simp add: valid_tiling_def list_all_iff)
  have le: "w \<le> 2 ^ 31" "h \<le> 2 ^ 31" using assms(4,5) by simp_all
  have b1: "1 * nat w \<le> 2 ^ 31" "1 * nat h \<le> 2 ^ 31" using le by (simp_all add: nat_le_iff)
  have 1: "run_tiles tiles mem p q w h = Some (mem(q := next_grid (mem p) w h))"
    unfolding run_tiles_def
    using run_threads_cover[OF assms(6-8) assms(2) covers_valid_tiling[OF assms(1)] ok] .
  have 2: "run_tiles (launch_blocks (1, 1) (nat w, nat h)) mem p q w h =
      Some (mem(q := next_grid (mem p) w h))"
    unfolding run_tiles_def
    using run_threads_cover[OF assms(6-8) assms(2) single_tile_covers[OF assms(2,3) le]
        launch_coords_ok[OF b1]] .
  show ?thesis
    using 1 2 launch_valid_tiling[of w _ _ h] gridSize_valid_tiling by simp
qed

theorem partition_invariance_witness:
  "valid_tiling 4 3 (launch_blocks (2, 2) (2, 2)) \<and>
   run_tiles (launch_blocks (2, 2) (2, 2)) demo_mem 0 1 4 3 =
     run_tiles (launch_blocks (1, 1) (nat 4, nat 3)) demo_mem 0 1 4 3 \<and>
   run_tiles (launch_blocks (2, 2) (2, 2)) demo_mem 0 1 4 3 \<noteq> None \<and>
   valid_tiling 4 3 (launch_blocks (4, 1) (1, 3)) \<and>
   valid_tiling (GRID_WIDTH kernel_cu) (GRID_HEIGHT kernel_cu)
     (launch_blocks (the (gridSize kernel_cu)) (blockSize kernel_cu))"
proof -
  have v: "valid_tiling 4 3 (launch_blocks (2, 2) (2, 2))"
    by (rule launch_valid_tiling) simp_all
  have l: "length (demo_mem 0) = nat (4 * 3)" "length (demo_mem 1) = nat (4 * 3)"
    by (simp_all add: demo_mem_def demo_grid_def)
  have pos: "(0::int) < 4" "(0::int) < 3" "(4::int) < 2 ^ 31" "(3::int) < 2 ^ 31"
    and ne: "(0::nat) \<noteq> 1" by simp_all
  have b: "(4::int) \<le> int (4 * 1) \<and> (3::int) \<le> int (1 * 3) \<and>
      (4::nat) * 1 \<le> 2 ^ 31 \<and> (1::nat) * 3 \<le> 2 ^ 31" by simp
  have c: "config_ok kernel_cu" by (rule config_ok_kernel_cu(1))
  note inst = partition_invariance[OF v pos ne l]
  have "valid_tiling 4 3 (launch_blocks (4, 1) (1, 3))" using inst b by blast
  moreover have "\<exists>g. gridSize kernel_cu = Some g \<and>
      valid_tiling (GRID_WIDTH kernel_cu) (GRID_HEIGHT kernel_cu) (launch_blocks g (blockSize kernel_cu))"
    using inst c by blast
  then have "valid_tiling (GRID_WIDTH kernel_cu) (GRID_HEIGHT kernel_cu)
     (launch_blocks (the (gridSize kernel_cu)) (blockSize kernel_cu))" by auto
  ultimately show ?thesis using inst v by blast
qed

text \<open>
  C4. Wrap-around at the corners: the neighbour count of each of the four corner cells
  is the byte of the diagonally opposite corner plus the bytes at the seven other
  offsets. For the cell \<open>(0, 0)\<close> the opposite corner is \<open>(w - 1, h - 1)\<close>.
\<close>

theorem corner_wrap:
  assumes "0 < w" "0 < h" "length g = nat (w * h)"
  shows "neighbor_count g w h 0 0 =
           Some (uint (cell_at g w (w - 1) (h - 1)) + others g w h 0 0 (- 1, - 1)) \<and>
         neighbor_count g w h (w - 1) 0 =
           Some (uint (cell_at g w 0 (h - 1)) + others g w h (w - 1) 0 (1, - 1)) \<and>
         neighbor_count g w h 0 (h - 1) =
           Some (uint (cell_at g w (w - 1) 0) + others g w h 0 (h - 1) (- 1, 1)) \<and>
         neighbor_count g w h (w - 1) (h - 1) =
           Some (uint (cell_at g w 0 0) + others g w h (w - 1) (h - 1) (1, 1))"
proof -
  have lo: "wrap 0 (- 1) n = n - 1" if "0 < n" for n
    using that by (simp add: wrap_def zmod_minus1)
  have hi: "wrap (n - 1) 1 n = 0" for n
    by (simp add: wrap_def)
  have 1: "byte_sum g w h 0 0 = uint (cell_at g w (w - 1) (h - 1)) + others g w h 0 0 (- 1, - 1)"
    using assms(1,2) by (simp add: byte_sum_def others_def offsets_def lo)
  have 2: "byte_sum g w h (w - 1) 0 = uint (cell_at g w 0 (h - 1)) + others g w h (w - 1) 0 (1, - 1)"
    using assms(1,2) by (simp add: byte_sum_def others_def offsets_def lo hi)
  have 3: "byte_sum g w h 0 (h - 1) = uint (cell_at g w (w - 1) 0) + others g w h 0 (h - 1) (- 1, 1)"
    using assms(1,2) by (simp add: byte_sum_def others_def offsets_def lo hi)
  have 4: "byte_sum g w h (w - 1) (h - 1) = uint (cell_at g w 0 0) + others g w h (w - 1) (h - 1) (1, 1)"
    using assms(1,2) by (simp add: byte_sum_def others_def offsets_def lo hi)
  show ?thesis
    using assms(1,2) by (simp add: neighbor_count_byte_sum assms(3) 1 2 3 4)
qed

theorem corner_wrap_witness:
  "neighbor_count demo_grid 4 3 0 0 =
     Some (uint (cell_at demo_grid 4 (4 - 1) (3 - 1)) + others demo_grid 4 3 0 0 (- 1, - 1)) \<and>
   neighbor_count demo_grid 4 3 (4 - 1) (3 - 1) =
     Some (uint (cell_at demo_grid 4 0 0) + others demo_grid 4 3 (4 - 1) (3 - 1) (1, 1))"
proof -
  have l: "length demo_grid = nat (4 * 3)" by (simp add: demo_grid_def)
  show ?thesis using corner_wrap[of 4 3 demo_grid, OF _ _ l] by simp
qed

text \<open>
  C7. A launch reads only the current buffer and writes only the next one: when the two
  pointers differ, the memory after the launch agrees with the memory before it at the
  current buffer, and at every pointer but that of the next buffer; and a launch on any
  other memory that holds the same two buffers gives the same next buffer.
\<close>

theorem current_buffer_read_only:
  assumes "p \<noteq> q" "updateGrid_launch gridDim blockDim mem p q w h = Some mem'"
  shows "mem' p = mem p \<and> (\<forall>r. r \<noteq> q \<longrightarrow> mem' r = mem r) \<and>
         (\<forall>mem2. mem2 p = mem p \<and> mem2 q = mem q \<longrightarrow>
            (\<exists>mem2'. updateGrid_launch gridDim blockDim mem2 p q w h = Some mem2' \<and> mem2' q = mem' q))"
proof (intro conjI allI impI)
  show "mem' p = mem p"
    using assms run_threads_frame[of "concat (launch_blocks gridDim blockDim)" mem p q w h mem']
    by (simp add: updateGrid_launch_def run_tiles_def)
  show "mem' r = mem r" if "r \<noteq> q" for r
    using assms(2) that run_threads_frame[of "concat (launch_blocks gridDim blockDim)" mem p q w h mem']
    by (simp add: updateGrid_launch_def run_tiles_def)
  show "\<exists>mem2'. updateGrid_launch gridDim blockDim mem2 p q w h = Some mem2' \<and> mem2' q = mem' q"
    if "mem2 p = mem p \<and> mem2 q = mem q" for mem2
    using assms(2) that
      run_threads_reads[of "concat (launch_blocks gridDim blockDim)" mem p q w h mem' mem2]
    by (auto simp add: updateGrid_launch_def run_tiles_def)
qed

theorem current_buffer_read_only_witness:
  "updateGrid_launch (2, 2) (2, 2) demo_mem 0 1 4 3 \<noteq> None \<and>
   (the (updateGrid_launch (2, 2) (2, 2) demo_mem 0 1 4 3)) 0 = demo_mem 0 \<and>
   (the (updateGrid_launch (2, 2) (2, 2) demo_mem 0 1 4 3)) 1 = [1, 0, 0, 1, 1, 0, 1, 1, 1, 0, 1, 1]"
proof -
  have r: "map_option (\<lambda>m. m 1) (updateGrid_launch (2, 2) (2, 2) demo_mem 0 1 4 3) =
      Some [1, 0, 0, 1, 1, 0, 1, 1, 1, 0, 1, 1]"
    by code_simp
  then obtain m where m: "updateGrid_launch (2, 2) (2, 2) demo_mem 0 1 4 3 = Some m"
    by auto
  have "(0::nat) \<noteq> 1" by simp
  from current_buffer_read_only[OF this m] r m show ?thesis by simp
qed




text \<open>
  C5. The all-dead grid is a fixed point: for positive sizes, from a state whose current
  buffer is all dead, any number \<open>n\<close> of generation updates succeeds and ends in a state
  whose current buffer is all dead.
\<close>

theorem all_dead_fixed_point:
  assumes "config_ok cfg" "state_ok cfg s" "all_dead (device s (d_grid s))"
  shows "\<exists>s'. generations cfg n s = Some s' \<and> all_dead (device s' (d_grid s'))"
  using generations_dead[OF assms] by blast

theorem all_dead_fixed_point_witness:
  "config_ok demo_cfg \<and> state_ok demo_cfg dead_state \<and> all_dead (device dead_state (d_grid dead_state)) \<and>
   (\<exists>s'. generations demo_cfg 3 dead_state = Some s' \<and> all_dead (device s' (d_grid s')))"
proof -
  have c: "config_ok demo_cfg" by (simp add: config_ok_def demo_cfg_def)
  have s: "state_ok demo_cfg dead_state" by (simp add: state_ok_def demo_cfg_def dead_state_def)
  have d: "all_dead (device dead_state (d_grid dead_state))"
    by (simp add: all_dead_def dead_state_def list_all_iff)
  from all_dead_fixed_point[OF c s d, of 3] c s d show ?thesis by blast
qed

text \<open>
  C8, as amended. The counter of \<^verbatim>\<open>main\<close> counts frames, not swaps: every iteration
  of the loop adds exactly 1 to \<open>frameCount\<close>, and the buffers are swapped in exactly
  the iterations that begin with \<open>frameCount\<close> a multiple of \<open>UPDATE_FREQUENCY\<close>. Over
  a run the number of swaps is therefore the number of multiples of \<open>UPDATE_FREQUENCY\<close>
  that the counter passed.
\<close>

theorem frame_counter:
  assumes "config_ok cfg" "0 < UPDATE_FREQUENCY cfg" "state_ok cfg s"
  shows "(\<exists>s1. frame cfg events s = Some s1 \<and> frameCount s1 = frameCount s + 1 \<and>
            swaps s1 = swaps s + (if frameCount s mod UPDATE_FREQUENCY cfg = 0 then 1 else 0)) \<and>
         (\<exists>s'. main_loop cfg evs s = Some s' \<and> frameCount s \<le> frameCount s' \<and>
            int (swaps s') - int (swaps s) =
              (frameCount s' + UPDATE_FREQUENCY cfg - 1) div UPDATE_FREQUENCY cfg
              - (frameCount s + UPDATE_FREQUENCY cfg - 1) div UPDATE_FREQUENCY cfg)"
  using frame_step[OF assms, of events] main_loop_counts[OF assms, of evs] by blast

theorem frame_counter_witness:
  "config_ok kernel_cu \<and> 0 < UPDATE_FREQUENCY kernel_cu \<and> state_ok kernel_cu start_state \<and>
   (\<exists>s1. frame kernel_cu [] start_state = Some s1 \<and> frameCount s1 = 1 \<and> swaps s1 = 1) \<and>
   (\<exists>s'. main_loop kernel_cu [[], [SDL_OTHER], [SDL_QUIT], []] start_state = Some s' \<and>
      frameCount start_state \<le> frameCount s')"
  using frame_counter[OF config_ok_kernel_cu start_state_ok, of "[]" "[[], [SDL_OTHER], [SDL_QUIT], []]"]
    config_ok_kernel_cu start_state_ok
  by (auto simp add: start_state_fields)

text \<open>
  C8 as stated fails: after the first two frames the counter has grown by 2 and the
  buffers were swapped once.
\<close>

theorem generation_counter_counterexample:
  "main_loop kernel_cu [[], []] start_state \<noteq> None \<and>
   frameCount (the (main_loop kernel_cu [[], []] start_state)) - frameCount start_state = 2 \<and>
   swaps (the (main_loop kernel_cu [[], []] start_state)) - swaps start_state = 1"
proof -
  obtain s' where s': "main_loop kernel_cu [[], []] start_state = Some s'"
    "int (swaps s') - int (swaps start_state) =
       (frameCount s' + UPDATE_FREQUENCY kernel_cu - 1) div UPDATE_FREQUENCY kernel_cu
       - (frameCount start_state + UPDATE_FREQUENCY kernel_cu - 1) div UPDATE_FREQUENCY kernel_cu"
    "\<not> quit start_state \<and> SDL_QUIT \<notin> \<Union> (set ` set [[], []]) \<longrightarrow>
       frameCount s' = frameCount start_state + int (length [[]::event list, []]) \<and> \<not> quit s'"
    using main_loop_counts[OF config_ok_kernel_cu start_state_ok, of "[[], []]"] by blast
  have fc: "frameCount s' = 2" using s'(3) by (simp add: start_state_fields)
  have "int (swaps s') = 1" using s'(2) fc by (simp add: start_state_fields kernel_cu_def)
  then show ?thesis using s'(1) fc by (simp add: start_state_fields)
qed

text \<open>
  C9, as amended. The initializer gives every cell a value drawn from 0 and 1; a
  generation update writes 0 or 1 into every cell of the next buffer, whatever the
  current buffer holds; so during the loop every cell of the host buffer and of the
  current buffer is 0 or 1, and so is every cell of the next buffer once the first
  update has run.
\<close>

theorem cells_zero_or_one:
  assumes "config_ok cfg" "0 < UPDATE_FREQUENCY cfg" "\<forall>k. dis k = 0 \<or> dis k = 1" "state_ok cfg s"
  shows "(\<exists>s1. update_step cfg s = Some s1 \<and> cells01 (device s1 (d_grid s1))) \<and>
         (\<exists>s0 s'. main_init cfg dis junk_h junk_d junk_n = Some s0 \<and>
            cells01 (h_grid s0) \<and> cells01 (device s0 (d_grid s0)) \<and>
            main_loop cfg evs s0 = Some s' \<and>
            cells01 (h_grid s') \<and> cells01 (device s' (d_grid s')) \<and>
            (0 < swaps s' \<longrightarrow> cells01 (device s' (d_newGrid s'))))"
proof (rule conjI)
  show "\<exists>s1. update_step cfg s = Some s1 \<and> cells01 (device s1 (d_grid s1))"
    using update_step_ok[OF assms(1,4)] cells01_next_grid by simp
next
  let ?n = "GRID_WIDTH cfg * GRID_HEIGHT cfg"
  define s0 where "s0 = \<lparr>device = (\<lambda>_. [])(0 := drawn dis ?n, 1 := alloc junk_n ?n),
          d_grid = 0, d_newGrid = 1, h_grid = drawn dis ?n,
          frameCount = 0, quit = False, swaps = 0\<rparr>"
  have init: "main_init cfg dis junk_h junk_d junk_n = Some s0"
    unfolding s0_def by (rule main_init_result[OF assms(1)])
  have ok0: "state_ok cfg s0" by (simp add: state_ok_def s0_def)
  have c0: "cells01 (device s0 (d_grid s0))" "cells01 (h_grid s0)"
    "0 < swaps s0 \<longrightarrow> cells01 (device s0 (d_newGrid s0))"
    using cells01_drawn[OF assms(3)] by (simp_all add: s0_def)
  from main_loop_cells01[OF assms(1,2) ok0 c0, of evs]
  obtain s' where s': "main_loop cfg evs s0 = Some s'" "cells01 (device s' (d_grid s'))"
    "cells01 (h_grid s')" "0 < swaps s' \<longrightarrow> cells01 (device s' (d_newGrid s'))"
    by (elim exE conjE)
  have "main_init cfg dis junk_h junk_d junk_n = Some s0 \<and>
            cells01 (h_grid s0) \<and> cells01 (device s0 (d_grid s0)) \<and>
            main_loop cfg evs s0 = Some s' \<and>
            cells01 (h_grid s') \<and> cells01 (device s' (d_grid s')) \<and>
            (0 < swaps s' \<longrightarrow> cells01 (device s' (d_newGrid s')))"
    using init c0(1,2) s' by (intro conjI)
  then show "\<exists>s0 s'. main_init cfg dis junk_h junk_d junk_n = Some s0 \<and>
            cells01 (h_grid s0) \<and> cells01 (device s0 (d_grid s0)) \<and>
            main_loop cfg evs s0 = Some s' \<and>
            cells01 (h_grid s') \<and> cells01 (device s' (d_grid s')) \<and>
            (0 < swaps s' \<longrightarrow> cells01 (device s' (d_newGrid s')))"
    by (intro exI)
qed

theorem cells_zero_or_one_witness:
  "config_ok kernel_cu \<and> 0 < UPDATE_FREQUENCY kernel_cu \<and> state_ok kernel_cu start_state \<and>
   (\<exists>s1. update_step kernel_cu start_state = Some s1 \<and> cells01 (device s1 (d_grid s1))) \<and>
   (\<exists>s0 s'. main_init kernel_cu (\<lambda>k. int (k mod 2)) (\<lambda>_. 0) (\<lambda>_. 0) (\<lambda>_. 2) = Some s0 \<and>
      cells01 (h_grid s0) \<and> cells01 (device s0 (d_grid s0)) \<and>
      main_loop kernel_cu [[], [SDL_QUIT]] s0 = Some s' \<and>
      cells01 (h_grid s') \<and> cells01 (device s' (d_grid s')) \<and>
      (0 < swaps s' \<longrightarrow> cells01 (device s' (d_newGrid s'))))"
proof -
  have d: "\<forall>k. int (k mod 2) = 0 \<or> int (k mod 2) = 1" by auto
  show ?thesis
    using cells_zero_or_one[OF config_ok_kernel_cu d start_state_ok,
        of "\<lambda>_. 0" "\<lambda>_. 0" "\<lambda>_. 2" "[[], [SDL_QUIT]]"]
      config_ok_kernel_cu start_state_ok
    by (intro conjI) (erule conjE, assumption)+
qed

text \<open>
  C9 as stated fails before the first update: the next buffer is allocated and not
  initialised, and holds whatever the memory held.
\<close>

theorem next_buffer_uninitialised_counterexample:
  "\<not> cells01 (device start_state (d_newGrid start_state))"
proof -
  let ?n = "GRID_WIDTH kernel_cu * GRID_HEIGHT kernel_cu"
  have buf: "device start_state (d_newGrid start_state) = alloc (\<lambda>_. 2) ?n"
    by (simp add: start_state_eq)
  have "0 < nat ?n" using kernel_cu_size by simp
  then have "alloc (\<lambda>_. 2 :: u8) ?n ! 0 = 2" "0 < length (alloc (\<lambda>_. 2 :: u8) ?n)"
    by (simp_all add: alloc_nth)
  then have "(2 :: u8) \<in> set (alloc (\<lambda>_. 2) ?n)"
    by (metis nth_mem)
  moreover have "(2 :: u8) \<noteq> 0" "(2 :: u8) \<noteq> 1" by simp_all
  ultimately show ?thesis unfolding buf cells01_def list_all_iff by blast
qed

text \<open>
  C6. Glider translation: on a grid of at least 10 by 10 cells whose live cells are
  exactly those of the glider, placed anywhere on the torus, four generation updates
  succeed and end with a current buffer whose live cells are exactly those of the glider
  moved by \<open>(+1, +1)\<close> modulo the sizes; every other cell is dead.
\<close>

theorem glider_translation:
  assumes "config_ok cfg" "10 \<le> GRID_WIDTH cfg" "10 \<le> GRID_HEIGHT cfg" "state_ok cfg s"
    and "device s (d_grid s) = place (GRID_WIDTH cfg) (GRID_HEIGHT cfg) glider ox oy"
  shows "\<exists>s'. generations cfg 4 s = Some s' \<and>
    device s' (d_grid s') = place (GRID_WIDTH cfg) (GRID_HEIGHT cfg) glider (ox + 1) (oy + 1)"
proof -
  have big: "6 \<le> GRID_WIDTH cfg" "6 \<le> GRID_HEIGHT cfg" using assms(2,3) by simp_all
  from generations_next_grid[OF assms(1,4), of 4]
  obtain s' where s': "generations cfg 4 s = Some s'"
    "device s' (d_grid s') =
      ((\<lambda>g. next_grid g (GRID_WIDTH cfg) (GRID_HEIGHT cfg)) ^^ 4) (device s (d_grid s))"
    by (elim exE conjE)
  have "device s' (d_grid s') = place (GRID_WIDTH cfg) (GRID_HEIGHT cfg) glider (ox + 1) (oy + 1)"
    unfolding s'(2) assms(5) by (rule glider_four[OF big])
  then show ?thesis using s'(1) by (intro exI conjI)
qed

theorem glider_translation_witness:
  "config_ok kernel_cu \<and> 10 \<le> GRID_WIDTH kernel_cu \<and> 10 \<le> GRID_HEIGHT kernel_cu \<and>
   state_ok kernel_cu glider_state \<and>
   device glider_state (d_grid glider_state) =
     place (GRID_WIDTH kernel_cu) (GRID_HEIGHT kernel_cu) glider 98 79 \<and>
   (\<exists>s'. generations kernel_cu 4 glider_state = Some s' \<and>
      device s' (d_grid s') =
        place (GRID_WIDTH kernel_cu) (GRID_HEIGHT kernel_cu) glider (98 + 1) (79 + 1))"
proof -
  have c: "config_ok kernel_cu" by (rule config_ok_kernel_cu(1))
  have b: "10 \<le> GRID_WIDTH kernel_cu" "10 \<le> GRID_HEIGHT kernel_cu"
    by (simp_all add: kernel_cu_def)
  have n: "GRID_WIDTH kernel_cu * GRID_HEIGHT kernel_cu = 8000" by (simp add: kernel_cu_def)
  have wh: "GRID_WIDTH kernel_cu = 100" "GRID_HEIGHT kernel_cu = 80" by (simp_all add: kernel_cu_def)
  have s: "state_ok kernel_cu glider_state" by (simp add: state_ok_def glider_state_def n)
  have d: "device glider_state (d_grid glider_state) =
     place (GRID_WIDTH kernel_cu) (GRID_HEIGHT kernel_cu) glider 98 79"
    by (simp add: glider_state_def wh)
  from glider_translation[OF c b s d] c b s d show ?thesis by (intro conjI)
qed

end
